theory Spec2Isabelle
  imports Main "HOL-Library.Multiset"
begin

section \<open>JavaScript strings\<close>

text \<open>
  A JavaScript string is modelled as a \<open>string\<close>, one \<open>char\<close> per code unit
  (code units below 256). The helpers below are the \<open>String.prototype\<close> methods
  that \<open>src/index.js\<close> calls, with the results the language defines for them.
\<close>

definition startsWith :: "string \<Rightarrow> string \<Rightarrow> bool" where
  "startsWith s p = (take (length p) s = p)"

definition endsWith :: "string \<Rightarrow> string \<Rightarrow> bool" where
  "endsWith s p = (length p \<le> length s \<and> drop (length s - length p) s = p)"

text \<open>\<open>s.includes(p)\<close>: \<open>p\<close> occurs in \<open>s\<close> as a contiguous substring
  (\<open>includes\<close> is a reserved word of the theory language).\<close>

fun includesStr :: "string \<Rightarrow> string \<Rightarrow> bool" where
  "includesStr [] p = (p = [])"
| "includesStr (c # s) p = (startsWith (c # s) p \<or> includesStr s p)"

text \<open>\<open>s.indexOf(c)\<close> for a one-character needle: the first index, or \<open>-1\<close>.\<close>

fun indexOf :: "string \<Rightarrow> char \<Rightarrow> int" where
  "indexOf [] c = - 1"
| "indexOf (x # xs) c =
     (if x = c then 0 else (let i = indexOf xs c in if i < 0 then - 1 else i + 1))"

text \<open>\<open>s.slice(a, b)\<close> and \<open>s.slice(a)\<close> for non-negative indices.\<close>

definition slice :: "string \<Rightarrow> nat \<Rightarrow> nat \<Rightarrow> string" where
  "slice s a b = take (b - a) (drop a s)"

definition sliceFrom :: "string \<Rightarrow> nat \<Rightarrow> string" where
  "sliceFrom s a = drop a s"

text \<open>
  \<open>s.trim()\<close> removes white space and line terminators from both ends. Among the code
  units below 256 these are TAB, LF, VT, FF, CR, SPACE and NBSP.
\<close>

definition isWhiteSpace :: "char \<Rightarrow> bool" where
  "isWhiteSpace c =
     (c \<in> set [CHR 0x09, CHR 0x0A, CHR 0x0B, CHR 0x0C, CHR 0x0D, CHR 0x20, CHR 0xA0])"

definition trim :: "string \<Rightarrow> string" where
  "trim s = rev (dropWhile isWhiteSpace (rev (dropWhile isWhiteSpace s)))"

text \<open>\<open>s.replace(/\/{2,}/g, "/")\<close>: every maximal run of slashes becomes one slash.\<close>

fun collapseSlashes :: "string \<Rightarrow> string" where
  "collapseSlashes (a # b # s) =
     (if a = CHR ''/'' \<and> b = CHR ''/'' then collapseSlashes (b # s)
      else a # collapseSlashes (b # s))"
| "collapseSlashes s = s"

section \<open>Route normalization\<close>

text \<open>
  \<open>normalizeRoute(input, { stripQuery })\<close> of \<open>src/index.js\<close>. The result \<open>None\<close>
  is the source's \<open>null\<close> (not a page).
\<close>

definition normalizeRoute :: "string \<Rightarrow> bool \<Rightarrow> string option" where
  "normalizeRoute input stripQuery =
     (if input = [] then None
      else if startsWith input ''mailto:'' \<or> startsWith input ''tel:''
            \<or> startsWith input ''javascript:'' then None
      else
        (let s = trim input in
         if startsWith s ''http://'' \<or> startsWith s ''https://'' then None
         else
           (let hashIdx = indexOf s (CHR ''#'');
                s = (if hashIdx \<ge> 0 then slice s 0 (nat hashIdx) else s);
                s = (if stripQuery
                     then (let qIdx = indexOf s (CHR ''?'')
                           in if qIdx \<ge> 0 then slice s 0 (nat qIdx) else s)
                     else s)
            in if s = [] then None
               else
                 (let s = (if \<not> startsWith s ''/''
                           then (if startsWith s ''./'' then sliceFrom s 1 else ''/'' @ s)
                           else s)
                  in Some (collapseSlashes s)))))"

section \<open>Output paths\<close>

text \<open>\<open>routeToMdWebPath(route)\<close>: the path of the Markdown file under sibling layout.\<close>

definition routeToMdWebPath :: "string \<Rightarrow> string" where
  "routeToMdWebPath route =
     (if route = ''/'' then ''index.html.md''
      else if endsWith route ''/'' then sliceFrom route 1 @ ''index.html.md''
      else sliceFrom route 1 @ ''.md'')"

text \<open>
  \<open>path.posix.join\<close> belongs to the Node.js standard library (\<open>lib/path.js\<close>), not
  to the repository. Its \<open>normalizeString\<close> walks the path segment by segment: an empty
  segment and \<open>.\<close> are dropped, \<open>..\<close> removes the segment before it (or is kept, for a
  relative path, when there is none to remove), and every other segment is kept.
\<close>

fun splitSlash :: "string \<Rightarrow> string list" where
  "splitSlash [] = [[]]"
| "splitSlash (c # s) =
     (if c = CHR ''/'' then [] # splitSlash s
      else (case splitSlash s of [] \<Rightarrow> [[c]] | seg # segs \<Rightarrow> (c # seg) # segs))"

fun joinSlash :: "string list \<Rightarrow> string" where
  "joinSlash [] = []"
| "joinSlash [seg] = seg"
| "joinSlash (seg # seg' # segs) = seg @ ''/'' @ joinSlash (seg' # segs)"

fun normalizeSegments :: "bool \<Rightarrow> string list \<Rightarrow> string list \<Rightarrow> string list" where
  "normalizeSegments allowAboveRoot res [] = res"
| "normalizeSegments allowAboveRoot res (seg # segs) =
     (if seg = [] \<or> seg = ''.'' then normalizeSegments allowAboveRoot res segs
      else if seg = ''..'' then
        (if res \<noteq> [] \<and> last res \<noteq> ''..''
         then normalizeSegments allowAboveRoot (butlast res) segs
         else if allowAboveRoot then normalizeSegments allowAboveRoot (res @ [''..'']) segs
         else normalizeSegments allowAboveRoot res segs)
      else normalizeSegments allowAboveRoot (res @ [seg]) segs)"

definition normalizeString :: "string \<Rightarrow> bool \<Rightarrow> string" where
  "normalizeString p allowAboveRoot = joinSlash (normalizeSegments allowAboveRoot [] (splitSlash p))"

definition posixNormalize :: "string \<Rightarrow> string" where
  "posixNormalize p =
     (if p = [] then ''.''
      else
        (let isAbsolute = (hd p = CHR ''/'');
             trailingSeparator = (last p = CHR ''/'');
             q = normalizeString p (\<not> isAbsolute)
         in if q = [] then (if isAbsolute then ''/'' else if trailingSeparator then ''./'' else ''.'')
            else (let q = (if trailingSeparator then q @ ''/'' else q)
                  in if isAbsolute then ''/'' @ q else q)))"

definition posixJoin :: "string \<Rightarrow> string \<Rightarrow> string" where
  "posixJoin a b =
     (let joined = (if a = [] then b else if b = [] then a else a @ ''/'' @ b)
      in if joined = [] then ''.'' else posixNormalize joined)"

text \<open>
  The \<open>mdRelPath\<close> that \<open>captureOne\<close> records for a page: the output-relative path
  under the configured layout (\<open>options.output.mode\<close>, \<open>options.output.subdir\<close>).
\<close>

definition mdRelPath :: "string \<Rightarrow> string \<Rightarrow> string \<Rightarrow> string" where
  "mdRelPath mode subdir route =
     (if mode = ''subdir'' then posixJoin subdir (routeToMdWebPath route)
      else routeToMdWebPath route)"

section \<open>Option merging\<close>

text \<open>
  The values an options object holds. Numbers are the integers the options use; a
  regular expression and a function are kept by their source text.
\<close>

datatype jv =
    JUndefined
  | JNull
  | JBool bool
  | JNum int
  | JStr string
  | JRegExp string
  | JFun string
  | JArr "jv list"
  | JObj "(string \<times> jv) list"

text \<open>
  An object is a list of properties in which the first entry for a key is the key's
  value. \<open>truthy\<close> is the language's conversion to a boolean.
\<close>

fun truthy :: "jv \<Rightarrow> bool" where
  "truthy JUndefined = False"
| "truthy JNull = False"
| "truthy (JBool b) = b"
| "truthy (JNum n) = (n \<noteq> 0)"
| "truthy (JStr s) = (s \<noteq> [])"
| "truthy _ = True"

fun typeofObject :: "jv \<Rightarrow> bool" where
  "typeofObject JNull = True"
| "typeofObject (JRegExp _) = True"
| "typeofObject (JArr _) = True"
| "typeofObject (JObj _) = True"
| "typeofObject _ = False"

fun isArray :: "jv \<Rightarrow> bool" where
  "isArray (JArr _) = True"
| "isArray _ = False"

fun isRegExp :: "jv \<Rightarrow> bool" where
  "isRegExp (JRegExp _) = True"
| "isRegExp _ = False"

text \<open>Decimal digits of an array index, as a property key.\<close>

fun showNat :: "nat \<Rightarrow> string" where
  "showNat n =
     (if n < 10 then [char_of (48 + n)]
      else showNat (n div 10) @ [char_of (48 + n mod 10)])"

text \<open>
  The own enumerable properties of a value, which is what the spread \<open>{ ...target }\<close>
  copies and what \<open>Object.keys\<close> lists: the entries of an object, the indexed elements
  of an array, the indexed characters of a string, and nothing for any other value.
\<close>

fun props :: "jv \<Rightarrow> (string \<times> jv) list" where
  "props (JObj kvs) = kvs"
| "props (JArr xs) = zip (map showNat [0..<length xs]) xs"
| "props (JStr s) = zip (map showNat [0..<length s]) (map (\<lambda>c. JStr [c]) s)"
| "props _ = []"

text \<open>
  \<open>target[key]\<close>, for a key among the own enumerable properties of the value. A key that
  names an inherited or a non-enumerable property (the \<open>name\<close> of a function, the
  \<open>constructor\<close> of an object) is outside the model, which reads it as \<open>undefined\<close>; none
  of the plugin's documented options is kept under such a key.
\<close>

definition getProp :: "jv \<Rightarrow> string \<Rightarrow> jv" where
  "getProp v key = (case map_of (props v) key of None \<Rightarrow> JUndefined | Some x \<Rightarrow> x)"

text \<open>
  An object lists its array-index keys first, in ascending order, and then its other
  keys in the order they were created. An array index is the canonical decimal form
  of an integer below \<open>2^32 - 1\<close>.
\<close>

definition isDigit :: "char \<Rightarrow> bool" where
  "isDigit c = (48 \<le> (of_char c :: int) \<and> (of_char c :: int) \<le> 57)"

definition digitsValue :: "string \<Rightarrow> int" where
  "digitsValue s = foldl (\<lambda>n c. 10 * n + (of_char c - 48)) 0 s"

definition arrayIndex :: "string \<Rightarrow> int option" where
  "arrayIndex key =
     (if key \<noteq> [] \<and> list_all isDigit key \<and> (key = ''0'' \<or> hd key \<noteq> CHR ''0'')
         \<and> digitsValue key < 4294967295
      then Some (digitsValue key) else None)"

text \<open>
  \<open>result[key] = v\<close>: a key the object has keeps its place; a new key takes the place
  the order above gives it.
\<close>

fun replaceProp :: "(string \<times> jv) list \<Rightarrow> string \<Rightarrow> jv \<Rightarrow> (string \<times> jv) list" where
  "replaceProp [] key v = []"
| "replaceProp ((k, x) # kvs) key v =
     (if k = key then (key, v) # kvs else (k, x) # replaceProp kvs key v)"

fun insertProp :: "(string \<times> jv) list \<Rightarrow> string \<Rightarrow> jv \<Rightarrow> (string \<times> jv) list" where
  "insertProp [] key v = [(key, v)]"
| "insertProp ((k, x) # kvs) key v =
     (case arrayIndex key of
        None \<Rightarrow> (k, x) # insertProp kvs key v
      | Some i \<Rightarrow>
          (case arrayIndex k of
             None \<Rightarrow> (key, v) # (k, x) # kvs
           | Some j \<Rightarrow>
               if i < j then (key, v) # (k, x) # kvs else (k, x) # insertProp kvs key v))"

definition setProp :: "(string \<times> jv) list \<Rightarrow> string \<Rightarrow> jv \<Rightarrow> (string \<times> jv) list" where
  "setProp kvs key v =
     (if key \<in> set (map fst kvs) then replaceProp kvs key v else insertProp kvs key v)"

text \<open>
  \<open>deepMerge(target, source)\<close>. The source is an object (the user's options, and in the
  recursive calls a value that passed the plain-object test), given by its properties.
\<close>

function deepMerge :: "jv \<Rightarrow> (string \<times> jv) list \<Rightarrow> (string \<times> jv) list" where
  "deepMerge target source =
     fold (\<lambda>key result.
            (let v = getProp (JObj source) key in
             if truthy v \<and> typeofObject v \<and> \<not> isArray v \<and> \<not> isRegExp v
             then setProp result key
                    (JObj (deepMerge
                             (let t = getProp target key in if truthy t then t else JObj [])
                             (props v)))
             else setProp result key v))
          (map fst source) (props target)"
  by pat_completeness auto

lemma size_map_of:
  "map_of kvs key = Some v \<Longrightarrow> size v < Suc (size_list (size_prod (\<lambda>_. 0) size) kvs)"
  by (induction kvs) (auto split: if_splits)

lemma props_smaller:
  assumes "map_of source key = Some v" and "typeofObject v" and "\<not> isArray v"
    and "\<not> isRegExp v" and "truthy v"
  shows "size_list (size_prod (\<lambda>_. 0) size) (props v)
           < size_list (size_prod (\<lambda>_. 0) size) source"
proof (cases v)
  case (JObj kvs)
  with size_map_of [OF assms(1)] show ?thesis by simp
qed (use assms in simp_all)

termination deepMerge
  apply (relation "measure (\<lambda>(t, s). size_list (size_prod (\<lambda>_. 0) size) s)")
   apply simp
  apply (auto simp: getProp_def split: option.splits intro: props_smaller)
  done

declare deepMerge.simps [simp del]

text \<open>The \<open>defaults\<close> object of \<open>llmSpiderPlugin\<close>, and the merged \<open>options\<close>.\<close>

definition defaults :: jv where
  "defaults = JObj
     [(''enabled'', JBool True),
      (''routes'', JUndefined),
      (''crawl'', JObj
         [(''enabled'', JBool False),
          (''seeds'', JArr [JStr ''/'']),
          (''maxDepth'', JNum 2),
          (''maxPages'', JNum 50),
          (''concurrency'', JNum 3),
          (''stripQuery'', JBool True)]),
      (''exclude'', JArr [JStr ''/login'', JStr ''/admin'', JStr ''/account'']),
      (''render'', JObj
         [(''waitUntil'', JStr ''networkidle2''),
          (''timeoutMs'', JNum 30000),
          (''waitForSelector'', JNull),
          (''postLoadDelayMs'', JNum 0),
          (''blockRequests'', JArr
             [JRegExp (''/google-analytics'' @ [CHR 0x5C] @ ''.com/i''),
              JRegExp (''/googletagmanager'' @ [CHR 0x5C] @ ''.com/i''),
              JRegExp (''/segment'' @ [CHR 0x5C] @ ''.com/i''),
              JRegExp (''/hotjar'' @ [CHR 0x5C] @ ''.com/i'')]),
          (''launchOptions'', JObj [(''headless'', JStr ''new'')]),
          (''beforeGoto'', JFun ''async (_page, _ctx) => {}''),
          (''beforeExtract'', JFun ''async (_page, _ctx) => {}'')]),
      (''extract'', JObj
         [(''mainSelector'', JArr [JStr ''main'', JStr ''#main-content'', JStr ''[data-main]'']),
          (''removeSelectors'', JArr
             [JStr ''script'', JStr ''style'', JStr ''noscript'', JStr ''nav'',
              JStr ''header'', JStr ''footer'', JStr ''svg'', JStr ''iframe'',
              JStr (''[role='' @ [CHR 0x27] @ ''alert'' @ [CHR 0x27] @ '']''), JStr ''.cookie'',
              JStr ''.cookie-banner'',
              JStr ''.modal''])]),
      (''markdown'', JObj
         [(''addFrontmatter'', JBool True),
          (''turndown'', JObj
             [(''headingStyle'', JStr ''atx''),
              (''codeBlockStyle'', JStr ''fenced''),
              (''emDelimiter'', JStr ''_'')])]),
      (''output'', JObj
         [(''mode'', JStr ''sibling''),
          (''subdir'', JStr ''ai''),
          (''llmsTxtFileName'', JStr ''llms.txt''),
          (''llmsTitle'', JNull),
          (''llmsSummary'',
             JStr ''LLM-friendly index of important pages and their Markdown equivalents.''),
          (''sort'', JBool True)]),
      (''logLevel'', JStr ''info'')]"

definition mergedOptions :: "(string \<times> jv) list \<Rightarrow> jv" where
  "mergedOptions userOptions = JObj (deepMerge defaults userOptions)"

text \<open>Reading a nested option, as in \<open>options.crawl.seeds\<close>.\<close>

fun getPath :: "jv \<Rightarrow> string list \<Rightarrow> jv" where
  "getPath v [] = v"
| "getPath v (key # keys) = getPath (getProp v key) keys"

section \<open>Routes, exclusion rules and the traversal state\<close>

record RouteDef =
  rd_path :: string
  rd_title :: "string option"
  rd_section :: "string option"
  rd_optional :: bool
  rd_notes :: "string option"

record QueueEntry =
  route :: string
  depth :: int

record CapturedPage =
  cp_route :: string
  cp_title :: string
  cp_section :: string
  cp_optional :: bool
  cp_notes :: "string option"
  cp_mdRelPath :: string

text \<open>\<open>a || b\<close> on an optional string: \<open>undefined\<close> and the empty string give \<open>b\<close>.\<close>

definition orElse :: "string option \<Rightarrow> string \<Rightarrow> string" where
  "orElse a b = (case a of None \<Rightarrow> b | Some s \<Rightarrow> if s = [] then b else s)"

text \<open>
  An entry of \<open>options.exclude\<close> is a string or a \<open>RegExp\<close> object. A \<open>RegExp\<close> is
  given by three things: whether it carries the \<open>g\<close> or \<open>y\<close> flag, its matcher
  (\<open>exec s i\<close> is the match attempt on \<open>s\<close> from index \<open>i\<close>, returning the index
  where the match ends), and its \<open>lastIndex\<close> property. \<open>regexpTest\<close> is
  \<open>RegExp.prototype.test\<close>: a flagged expression starts at \<open>lastIndex\<close> and stores
  the end of the match there (or \<open>0\<close> on failure); an unflagged one starts at \<open>0\<close>
  and leaves \<open>lastIndex\<close> alone.
\<close>

datatype rule = Str string | RegExp bool "string \<Rightarrow> nat \<Rightarrow> nat option" nat

definition regexpTest ::
  "bool \<Rightarrow> (string \<Rightarrow> nat \<Rightarrow> nat option) \<Rightarrow> nat \<Rightarrow> string \<Rightarrow> bool \<times> nat" where
  "regexpTest flagged exec lastIndex s =
     (let start = (if flagged then lastIndex else 0) in
      if length s < start then (False, (if flagged then 0 else lastIndex))
      else (case exec s start of
              None \<Rightarrow> (False, (if flagged then 0 else lastIndex))
            | Some e \<Rightarrow> (True, (if flagged then e else lastIndex))))"

text \<open>
  \<open>isExcluded(route)\<close>: \<open>Array.prototype.some\<close> tests the rules in order and stops at
  the first that matches. The rules are returned with their \<open>lastIndex\<close> as the tests
  left it.
\<close>

fun isExcluded :: "rule list \<Rightarrow> string \<Rightarrow> bool \<times> rule list" where
  "isExcluded [] r = (False, [])"
| "isExcluded (Str p # ps) r =
     (if includesStr r p then (True, Str p # ps)
      else (let (found, ps') = isExcluded ps r in (found, Str p # ps')))"
| "isExcluded (RegExp flagged exec lastIndex # ps) r =
     (let (matched, lastIndex') = regexpTest flagged exec lastIndex r in
      if matched then (True, RegExp flagged exec lastIndex' # ps)
      else (let (found, ps') = isExcluded ps r in (found, RegExp flagged exec lastIndex' # ps')))"

text \<open>
  The matcher of a pattern that is a plain word, such as \<open>/admin/\<close>: the first
  occurrence of the word at or after the start index.
\<close>

function execWord :: "string \<Rightarrow> string \<Rightarrow> nat \<Rightarrow> nat option" where
  "execWord w s i =
     (if length s < i then None
      else if startsWith (drop i s) w then Some (i + length w)
      else if length s \<le> i then None
      else execWord w s (Suc i))"
  by pat_completeness auto
termination
  by (relation "measure (\<lambda>(w, s, i). length s - i)") auto

declare execWord.simps [simp del]

text \<open>The options the run reads, after merging, and the resolved build configuration.\<close>

record options =
  enabled :: bool
  routes :: "RouteDef list"
  crawl_enabled :: bool
  crawl_seeds :: "string list option"
  crawl_maxDepth :: int
  crawl_maxPages :: int
  crawl_concurrency :: int
  crawl_stripQuery :: bool
  exclude :: "rule list"
  output_mode :: string
  output_subdir :: string
  output_sort :: bool
  output_llmsTitle :: "string option"
  output_llmsSummary :: string
  env_mode :: "string option"
  base :: "string option"

text \<open>
  What the renderer and the file system do for a route. \<open>browser.newPage()\<close> and
  \<open>page.setRequestInterception\<close> run before the \<open>try\<close> block of \<open>captureOne\<close>; the
  steps of \<open>step\<close> run inside it; \<open>page.close()\<close> runs in its \<open>finally\<close>. A loaded
  page gives the text of its \<open>title\<close> element and the \<open>href\<close> of each of its links.
\<close>

datatype step =
  BeforeGotoHook | Navigation | SelectorWait | BeforeExtractHook | Extraction | Conversion
  | FileWrite

datatype page = Failed step | Loaded string "string list"

datatype rendering = SetupRejects | Rendered page bool

type_synonym site = "string \<Rightarrow> rendering"

datatype error = Rejected string

text \<open>
  The mutable data of \<open>closeBundle\<close>: the \<open>visited\<close> set (in insertion order), the
  \<open>captured\<close> array, the \<open>queue\<close>, and the exclusion rules with their \<open>lastIndex\<close>.
\<close>

record state =
  visited :: "string list"
  captured :: "CapturedPage list"
  queue :: "QueueEntry list"
  rules :: "rule list"

text \<open>The constants \<open>closeBundle\<close> computes before the loop, which \<open>captureOne\<close> reads.\<close>

record env =
  crawl :: bool
  maxDepth :: int
  maxPages :: int
  concurrency :: int
  stripQuery :: bool
  routeDefs :: "RouteDef list"
  normalizedBase :: string
  mode :: string
  subdir :: string

section \<open>Route resolution and seeding\<close>

definition resolveRouteDef :: "RouteDef \<Rightarrow> RouteDef" where
  "resolveRouteDef r =
     \<lparr>rd_path = orElse (normalizeRoute (rd_path r) True) ''/'',
      rd_title = rd_title r,
      rd_section = Some (orElse (rd_section r) ''Pages''),
      rd_optional = rd_optional r,
      rd_notes = rd_notes r\<rparr>"

definition resolveRouteDefs :: "options \<Rightarrow> RouteDef list" where
  "resolveRouteDefs opts =
     (if routes opts \<noteq> [] then map resolveRouteDef (routes opts)
      else if crawl_enabled opts then []
      else [\<lparr>rd_path = ''/'', rd_title = None, rd_section = Some ''Pages'',
             rd_optional = False, rd_notes = None\<rparr>])"

fun seedEntries :: "bool \<Rightarrow> string list \<Rightarrow> QueueEntry list" where
  "seedEntries sq [] = []"
| "seedEntries sq (seed # seeds) =
     (case normalizeRoute seed sq of
        None \<Rightarrow> seedEntries sq seeds
      | Some nr \<Rightarrow>
          (if nr = [] then seedEntries sq seeds
           else \<lparr>route = nr, depth = 0\<rparr> # seedEntries sq seeds))"

definition seedQueue :: "options \<Rightarrow> RouteDef list \<Rightarrow> QueueEntry list" where
  "seedQueue opts rds =
     (if crawl_enabled opts
      then seedEntries (crawl_stripQuery opts)
             (case crawl_seeds opts of None \<Rightarrow> [''/''] | Some seeds \<Rightarrow> seeds)
      else map (\<lambda>rd. \<lparr>route = rd_path rd, depth = 0\<rparr>) rds)"

definition replaceBackslashes :: "string \<Rightarrow> string" where
  "replaceBackslashes s = map (\<lambda>c. if c = CHR 0x5C then CHR ''/'' else c) s"

definition mkEnv :: "options \<Rightarrow> env" where
  "mkEnv opts =
     (let rds = resolveRouteDefs opts;
          basePath = replaceBackslashes (orElse (base opts) ''/'')
      in \<lparr>crawl = crawl_enabled opts,
          maxDepth = (if crawl_enabled opts then crawl_maxDepth opts else 0),
          maxPages = (if crawl_enabled opts then crawl_maxPages opts
                      else int (length (seedQueue opts rds))),
          concurrency = (if crawl_enabled opts then crawl_concurrency opts else 3),
          stripQuery = crawl_stripQuery opts,
          routeDefs = rds,
          normalizedBase = (if endsWith basePath ''/'' then basePath else basePath @ ''/''),
          mode = output_mode opts,
          subdir = output_subdir opts\<rparr>)"

definition initialState :: "options \<Rightarrow> state" where
  "initialState opts =
     \<lparr>visited = [], captured = [], queue = seedQueue opts (resolveRouteDefs opts),
      rules = exclude opts\<rparr>"

section \<open>The capture operation\<close>

text \<open>The record \<open>captureOne\<close> pushes for a page that was written.\<close>

definition capturedPage :: "env \<Rightarrow> string \<Rightarrow> string \<Rightarrow> CapturedPage" where
  "capturedPage c r titleText =
     (let title = (let t = trim titleText in if t = [] then r else t);
          meta = find (\<lambda>rd. rd_path rd = r) (routeDefs c)
      in \<lparr>cp_route = r,
          cp_title = (case meta of None \<Rightarrow> title | Some m \<Rightarrow> orElse (rd_title m) title),
          cp_section = (case meta of None \<Rightarrow> ''Pages'' | Some m \<Rightarrow> orElse (rd_section m) ''Pages''),
          cp_optional = (case meta of None \<Rightarrow> False | Some m \<Rightarrow> rd_optional m),
          cp_notes = (case meta of None \<Rightarrow> None | Some m \<Rightarrow> rd_notes m),
          cp_mdRelPath = mdRelPath (mode c) (subdir c) r\<rparr>)"

text \<open>Link harvesting: the loop over \<open>hrefs\<close> at the end of the \<open>try\<close> block.\<close>

definition baseRelative :: "string \<Rightarrow> string \<Rightarrow> string" where
  "baseRelative nb n =
     (if nb \<noteq> ''/'' \<and> startsWith n nb
      then (let b = ''/'' @ sliceFrom n (length nb)
            in if b = ''//'' then ''/'' else collapseSlashes b)
      else n)"

fun harvest :: "env \<Rightarrow> string list \<Rightarrow> state \<Rightarrow> state" where
  "harvest c [] st = st"
| "harvest c (href # hrefs) st =
     (case normalizeRoute href (stripQuery c) of
        None \<Rightarrow> harvest c hrefs st
      | Some n \<Rightarrow>
          (if n = [] then harvest c hrefs st
           else
             (let b = baseRelative (normalizedBase c) n in
              if b \<in> set (visited st) then harvest c hrefs st
              else
                (let (excluded, rs) = isExcluded (rules st) b;
                     st = st\<lparr>rules := rs\<rparr>
                 in if excluded then harvest c hrefs st
                    else harvest c hrefs
                           (st\<lparr>queue := queue st @ [\<lparr>route = b, depth = - 1\<rparr>]\<rparr>)))))"

text \<open>
  \<open>captureOne(route)\<close> runs in two parts. The first runs without interruption when the
  batch member is dispatched, up to \<open>await browser.newPage()\<close>: the three guards and
  \<open>visited.add\<close>. It answers whether the capture goes on.
\<close>

definition captureOneStart :: "env \<Rightarrow> string \<Rightarrow> state \<Rightarrow> bool \<times> state" where
  "captureOneStart c r st =
     (if r \<in> set (visited st) then (False, st)
      else
        (let (excluded, rs) = isExcluded (rules st) r;
             st = st\<lparr>rules := rs\<rparr>
         in if excluded then (False, st)
            else if maxPages c \<le> int (length (captured st)) then (False, st)
            else (True, st\<lparr>visited := visited st @ [r]\<rparr>)))"

text \<open>
  The second part runs when the page's work is done. A failure inside the \<open>try\<close> block
  is caught and changes nothing; a written page is pushed to \<open>captured\<close> and, in crawl
  mode, its links are harvested, in one uninterrupted stretch. A rejection of
  \<open>browser.newPage()\<close> or of \<open>page.close()\<close> is not caught: it rejects \<open>captureOne\<close>.
\<close>

definition captureOneFinish :: "env \<Rightarrow> site \<Rightarrow> string \<Rightarrow> state \<Rightarrow> error + state" where
  "captureOneFinish c web r st =
     (case web r of
        SetupRejects \<Rightarrow> Inl (Rejected r)
      | Rendered pg closeOk \<Rightarrow>
          (let st' = (case pg of
                        Failed s \<Rightarrow> st
                      | Loaded titleText hrefs \<Rightarrow>
                          (let st1 = st\<lparr>captured := captured st @ [capturedPage c r titleText]\<rparr>
                           in if crawl c then harvest c hrefs st1 else st1))
           in if closeOk then Inr st' else Inl (Rejected r)))"

section \<open>Batches\<close>

text \<open>
  \<open>queue.splice(0, concurrency).map(...)\<close>: the batch, with an unresolved depth read as
  \<open>1\<close>, and the rest of the queue. A count below one removes nothing.
\<close>

definition fixDepth :: "QueueEntry \<Rightarrow> QueueEntry" where
  "fixDepth item = \<lparr>route = route item, depth = (if 0 \<le> depth item then depth item else 1)\<rparr>"

definition takeBatch :: "int \<Rightarrow> QueueEntry list \<Rightarrow> QueueEntry list \<times> QueueEntry list" where
  "takeBatch n q = (map fixDepth (take (nat n) q), drop (nat n) q)"

text \<open>The patch loop of a batch member: every unresolved entry gets the member's depth plus one.\<close>

definition patchDepths :: "int \<Rightarrow> QueueEntry list \<Rightarrow> QueueEntry list" where
  "patchDepths d q = map (\<lambda>e. if depth e = - 1 then e\<lparr>depth := d + 1\<rparr> else e) q"

definition patchQueue :: "env \<Rightarrow> int \<Rightarrow> state \<Rightarrow> state" where
  "patchQueue c d st = (if crawl c then st\<lparr>queue := patchDepths d (queue st)\<rparr> else st)"

text \<open>
  What a batch member has left to do after its dispatch: nothing (it was beyond the
  depth limit), only its patch loop (\<open>captureOne\<close> returned at a guard), or the rest of
  its capture followed by its patch loop.
\<close>

datatype dispatched = Skipped | Early int | InFlight string int

definition dispatchMember :: "env \<Rightarrow> QueueEntry \<Rightarrow> state \<Rightarrow> dispatched \<times> state" where
  "dispatchMember c e st =
     (if crawl c \<and> maxDepth c < depth e then (Skipped, st)
      else (let (going, st') = captureOneStart c (route e) st
            in if going then (InFlight (route e) (depth e), st') else (Early (depth e), st')))"

fun dispatchAll :: "env \<Rightarrow> QueueEntry list \<Rightarrow> state \<Rightarrow> dispatched list \<times> state" where
  "dispatchAll c [] st = ([], st)"
| "dispatchAll c (e # es) st =
     (let (m, st') = dispatchMember c e st;
          (ms, st'') = dispatchAll c es st'
      in (m # ms, st''))"

text \<open>
  The members whose \<open>captureOne\<close> returned at a guard resume first, before any page
  work completes, and do their patching in batch order.
\<close>

fun earlyPatches :: "env \<Rightarrow> dispatched list \<Rightarrow> state \<Rightarrow> state" where
  "earlyPatches c [] st = st"
| "earlyPatches c (Early d # ms) st = earlyPatches c ms (patchQueue c d st)"
| "earlyPatches c (m # ms) st = earlyPatches c ms st"

text \<open>
  The members in flight. Each has two stretches left, which run when their awaited
  work completes: the end of its capture, then its patch loop.
\<close>

datatype task = Capturing string int | Patching int

fun inFlight :: "dispatched list \<Rightarrow> task list" where
  "inFlight [] = []"
| "inFlight (InFlight r d # ms) = Capturing r d # inFlight ms"
| "inFlight (m # ms) = inFlight ms"

definition stepTask :: "env \<Rightarrow> site \<Rightarrow> task \<Rightarrow> state \<Rightarrow> error + (task option \<times> state)" where
  "stepTask c web t st =
     (case t of
        Capturing r d \<Rightarrow>
          (case captureOneFinish c web r st of
             Inl e \<Rightarrow> Inl e
           | Inr st' \<Rightarrow> Inr (Some (Patching d), st'))
      | Patching d \<Rightarrow> Inr (None, patchQueue c d st))"

text \<open>
  The order in which the stretches of different members run is not fixed by the
  program: it depends on when each member's awaited work completes. A schedule names,
  one after the other, the position (among the members still at work) of the member
  that runs its next stretch; when the schedule is used up the remaining members
  finish one after the other. \<open>Promise.all\<close> rejects as soon as one member does.
\<close>

fun finishTasks :: "env \<Rightarrow> site \<Rightarrow> task list \<Rightarrow> state \<Rightarrow> error + state" where
  "finishTasks c web [] st = Inr st"
| "finishTasks c web (t # ts) st =
     (case stepTask c web t st of
        Inl e \<Rightarrow> Inl e
      | Inr (None, st') \<Rightarrow> finishTasks c web ts st'
      | Inr (Some t', st') \<Rightarrow>
          (case stepTask c web t' st' of
             Inl e \<Rightarrow> Inl e
           | Inr (_, st'') \<Rightarrow> finishTasks c web ts st''))"

fun runTasks :: "env \<Rightarrow> site \<Rightarrow> nat list \<Rightarrow> task list \<Rightarrow> state \<Rightarrow> error + state" where
  "runTasks c web [] ts st = finishTasks c web ts st"
| "runTasks c web (k # ks) ts st =
     (if k < length ts
      then (case stepTask c web (ts ! k) st of
              Inl e \<Rightarrow> Inl e
            | Inr (None, st') \<Rightarrow> runTasks c web ks (take k ts @ drop (Suc k) ts) st'
            | Inr (Some t', st') \<Rightarrow> runTasks c web ks (ts[k := t']) st')
      else runTasks c web ks ts st)"

definition runBatch :: "env \<Rightarrow> site \<Rightarrow> nat list \<Rightarrow> state \<Rightarrow> error + state" where
  "runBatch c web sched st =
     (let (batch, rest) = takeBatch (concurrency c) (queue st);
          (ms, st') = dispatchAll c batch (st\<lparr>queue := rest\<rparr>)
      in runTasks c web sched (inFlight ms) (earlyPatches c ms st'))"

section \<open>The traversal loop\<close>

text \<open>
  The \<open>while\<close> loop of \<open>closeBundle\<close>. It takes one schedule per batch; \<open>None\<close> says
  that the loop is still running when the schedules are used up.
\<close>

fun traverse :: "env \<Rightarrow> site \<Rightarrow> nat list list \<Rightarrow> state \<Rightarrow> (error + state) option" where
  "traverse c web [] st =
     (if queue st \<noteq> [] \<and> int (length (captured st)) < maxPages c then None
      else Some (Inr st))"
| "traverse c web (sched # scheds) st =
     (if queue st \<noteq> [] \<and> int (length (captured st)) < maxPages c
      then (case runBatch c web sched st of
              Inl e \<Rightarrow> Some (Inl e)
            | Inr st' \<Rightarrow> traverse c web scheds st')
      else Some (Inr st))"

section \<open>The index document\<close>

text \<open>
  \<open>[...captured].sort((a, b) => a.route.localeCompare(b.route))\<close>. The comparison of
  two route keys belongs to the host's collation and is a parameter here. The sort of
  the language is stable: pages that compare equal keep their order.
\<close>

fun insertItem ::
  "(string \<Rightarrow> string \<Rightarrow> int) \<Rightarrow> CapturedPage \<Rightarrow> CapturedPage list \<Rightarrow> CapturedPage list" where
  "insertItem cmp x [] = [x]"
| "insertItem cmp x (y # ys) =
     (if cmp (cp_route x) (cp_route y) < 0 then x # y # ys else y # insertItem cmp x ys)"

definition sortItems :: "(string \<Rightarrow> string \<Rightarrow> int) \<Rightarrow> CapturedPage list \<Rightarrow> CapturedPage list" where
  "sortItems cmp xs = foldl (\<lambda>acc x. insertItem cmp x acc) [] xs"

text \<open>\<open>bySection\<close> is a \<open>Map\<close>: it keeps the sections in the order they were first set.\<close>

fun sectionAdd ::
  "(string \<times> CapturedPage list) list \<Rightarrow> string \<Rightarrow> CapturedPage
     \<Rightarrow> (string \<times> CapturedPage list) list" where
  "sectionAdd [] s item = [(s, [item])]"
| "sectionAdd ((s', items) # rest) s item =
     (if s' = s then (s', items @ [item]) # rest else (s', items) # sectionAdd rest s item)"

definition groupItems ::
  "CapturedPage list \<Rightarrow> (string \<times> CapturedPage list) list \<times> CapturedPage list" where
  "groupItems items =
     foldl (\<lambda>(bySection, optionalItems) item.
              if cp_optional item then (bySection, optionalItems @ [item])
              else (sectionAdd bySection (orElse (Some (cp_section item)) ''Pages'') item,
                    optionalItems))
           ([], []) items"

definition makeLlmsLink :: "string \<Rightarrow> string" where
  "makeLlmsLink relMdPath = replaceBackslashes relMdPath"

definition renderItem :: "CapturedPage \<Rightarrow> string" where
  "renderItem it =
     ''- ['' @ orElse (Some (cp_title it)) (cp_route it) @ '']('' @ makeLlmsLink (cp_mdRelPath it)
       @ '')'' @ (case cp_notes it of
                    None \<Rightarrow> []
                  | Some n \<Rightarrow> if n = [] then [] else '': '' @ n)
       @ [CHR 0x0A]"

definition renderSection :: "string \<Rightarrow> CapturedPage list \<Rightarrow> string" where
  "renderSection s items =
     ''## '' @ s @ [CHR 0x0A, CHR 0x0A] @ concat (map renderItem items) @ [CHR 0x0A]"

definition llmsTxt ::
  "(string \<Rightarrow> string \<Rightarrow> int) \<Rightarrow> options \<Rightarrow> CapturedPage list \<Rightarrow> string" where
  "llmsTxt cmp opts pages =
     (let llmsTitle = orElse (output_llmsTitle opts) (orElse (env_mode opts) ''Site'');
          items = (if output_sort opts then sortItems cmp pages else pages);
          (bySection, optionalItems) = groupItems items
      in ''# '' @ llmsTitle @ [CHR 0x0A, CHR 0x0A] @ ''> '' @ output_llmsSummary opts
           @ [CHR 0x0A, CHR 0x0A]
           @ concat (map (\<lambda>(s, sectionItems). renderSection s sectionItems) bySection)
           @ (if optionalItems \<noteq> [] then renderSection ''Optional'' optionalItems else []))"

section \<open>The whole run\<close>

text \<open>
  \<open>closeBundle\<close>, from the resolution of the routes to the index document. A disabled
  plugin does nothing; a rejected capture leaves the loop by the exception, and no
  index is written; otherwise the index is built from the final \<open>captured\<close> array. The
  preview server and the browser are taken to start.
\<close>

datatype outcome = NotEnabled | Threw error | Wrote state string

definition closeBundle ::
  "(string \<Rightarrow> string \<Rightarrow> int) \<Rightarrow> options \<Rightarrow> site \<Rightarrow> nat list list \<Rightarrow> outcome option" where
  "closeBundle cmp opts web scheds =
     (if \<not> enabled opts then Some NotEnabled
      else (case traverse (mkEnv opts) web scheds (initialState opts) of
              None \<Rightarrow> None
            | Some (Inl e) \<Rightarrow> Some (Threw e)
            | Some (Inr st) \<Rightarrow> Some (Wrote st (llmsTxt cmp opts (captured st)))))"

section \<open>Sample data\<close>

text \<open>
  Concrete inputs for the runs evaluated below: a comparison of route keys by code
  unit, the default options, a route declared by its path alone, and a site given by
  the routes that load together with the links each page carries (any other route
  fails at navigation).
\<close>

fun codeCompare :: "string \<Rightarrow> string \<Rightarrow> int" where
  "codeCompare [] [] = 0"
| "codeCompare [] (y # ys) = - 1"
| "codeCompare (x # xs) [] = 1"
| "codeCompare (x # xs) (y # ys) =
     (if (of_char x :: nat) < of_char y then - 1
      else if (of_char y :: nat) < of_char x then 1
      else codeCompare xs ys)"

definition plainOptions :: options where
  "plainOptions =
     \<lparr>enabled = True, routes = [], crawl_enabled = False, crawl_seeds = Some [''/''],
      crawl_maxDepth = 2, crawl_maxPages = 50, crawl_concurrency = 3,
      crawl_stripQuery = True, exclude = [Str ''/login'', Str ''/admin'', Str ''/account''],
      output_mode = ''sibling'', output_subdir = ''ai'', output_sort = True,
      output_llmsTitle = None,
      output_llmsSummary = ''LLM-friendly index of important pages and their Markdown equivalents.'',
      env_mode = None, base = None\<rparr>"

definition routeDef :: "string \<Rightarrow> RouteDef" where
  "routeDef p =
     \<lparr>rd_path = p, rd_title = None, rd_section = None, rd_optional = False, rd_notes = None\<rparr>"

definition staticSite :: "(string \<times> string list) list \<Rightarrow> site" where
  "staticSite pages r =
     (case map_of pages r of
        None \<Rightarrow> Rendered (Failed Navigation) True
      | Some hrefs \<Rightarrow> Rendered (Loaded [] hrefs) True)"

text \<open>
  What a run wrote: the routes of its captured pages, the pages, the index text. And
  what it threw.
\<close>

definition routesWritten :: "outcome option \<Rightarrow> string list option" where
  "routesWritten out =
     (case out of Some (Wrote st doc) \<Rightarrow> Some (map cp_route (captured st)) | _ \<Rightarrow> None)"

definition pagesWritten :: "outcome option \<Rightarrow> CapturedPage list option" where
  "pagesWritten out = (case out of Some (Wrote st doc) \<Rightarrow> Some (captured st) | _ \<Rightarrow> None)"

definition indexWritten :: "outcome option \<Rightarrow> string option" where
  "indexWritten out = (case out of Some (Wrote st doc) \<Rightarrow> Some doc | _ \<Rightarrow> None)"

definition thrown :: "outcome option \<Rightarrow> error option" where
  "thrown out = (case out of Some (Threw e) \<Rightarrow> Some e | _ \<Rightarrow> None)"

text \<open>A crawl of two seeds capped at one page, with \<open>k\<close> captures at a time.\<close>

definition cappedCrawl :: "int \<Rightarrow> options" where
  "cappedCrawl k =
     plainOptions\<lparr>crawl_enabled := True, crawl_seeds := Some [''/'', ''/a''],
                   crawl_maxPages := 1, crawl_concurrency := k\<rparr>"

definition homeAndA :: site where
  "homeAndA = staticSite [(''/'', []), (''/a'', [])]"

text \<open>Two declared routes under the exclusion pattern \<open>/admin/g\<close>.\<close>

definition adminPattern :: options where
  "adminPattern =
     plainOptions\<lparr>routes := [routeDef ''/admin/a'', routeDef ''/admin/b''],
                   exclude := [RegExp True (execWord ''admin'') 0]\<rparr>"

definition adminPages :: site where
  "adminPages = staticSite [(''/admin/a'', []), (''/admin/b'', [])]"

text \<open>Three declared routes, of which \<open>/b\<close> fails to load.\<close>

definition threeRoutes :: options where
  "threeRoutes = plainOptions\<lparr>routes := [routeDef ''/a'', routeDef ''/b'', routeDef ''/c'']\<rparr>"

definition twoPages :: site where
  "twoPages = staticSite [(''/a'', []), (''/c'', [])]"

text \<open>
  The same site when the page of \<open>/b\<close> has crashed: navigation fails, and so does
  \<open>page.close()\<close>.
\<close>

definition crashedPage :: site where
  "crashedPage = twoPages(''/b'' := Rendered (Failed Navigation) False)"

text \<open>
  A crawl under subdir layout of a site whose root page carries the relative link
  \<open>../x\<close>.
\<close>

definition subdirCrawl :: options where
  "subdirCrawl = plainOptions\<lparr>crawl_enabled := True, output_mode := ''subdir''\<rparr>"

definition upwardLink :: site where
  "upwardLink = staticSite [(''/'', [''../x'']), (''/../x'', [])]"

text \<open>A route declared twice, under two spellings.\<close>

definition sameRouteTwice :: options where
  "sameRouteTwice = plainOptions\<lparr>routes := [routeDef ''/a'', routeDef ''a'', routeDef ''/b'']\<rparr>"

text \<open>
  A crawl of three seeds, two captures at a time: the second batch holds \<open>/s3\<close> at
  depth 0 and \<open>/a\<close> at depth 1. \<open>secondBatch\<close> gives the queue before and after it.
\<close>

definition mixedCrawl :: options where
  "mixedCrawl =
     plainOptions\<lparr>crawl_enabled := True, crawl_seeds := Some [''/s1'', ''/s2'', ''/s3''],
                   crawl_concurrency := 2\<rparr>"

definition mixedSite :: site where
  "mixedSite =
     staticSite [(''/s1'', [''/a'']), (''/s2'', []), (''/s3'', [''/x'']), (''/a'', [''/y'']),
                 (''/x'', []), (''/y'', [])]"

definition secondBatch :: "nat list \<Rightarrow> QueueEntry list \<times> QueueEntry list" where
  "secondBatch sched =
     (case runBatch (mkEnv mixedCrawl) mixedSite [] (initialState mixedCrawl) of
        Inl e \<Rightarrow> ([], [])
      | Inr st1 \<Rightarrow>
          (case runBatch (mkEnv mixedCrawl) mixedSite sched st1 of
             Inl e \<Rightarrow> (queue st1, [])
           | Inr st2 \<Rightarrow> (queue st1, queue st2)))"

text \<open>A crawl of two seeds, and the two pages it captures.\<close>

definition twoSeeds :: options where
  "twoSeeds = plainOptions\<lparr>crawl_enabled := True, crawl_seeds := Some [''/b'', ''/a''],
                            crawl_concurrency := 1\<rparr>"

definition pageA :: CapturedPage where
  "pageA = \<lparr>cp_route = ''/a'', cp_title = ''/a'', cp_section = ''Pages'', cp_optional = False,
            cp_notes = None, cp_mdRelPath = ''a.md''\<rparr>"

definition pageB :: CapturedPage where
  "pageB = \<lparr>cp_route = ''/b'', cp_title = ''/b'', cp_section = ''Pages'', cp_optional = False,
            cp_notes = None, cp_mdRelPath = ''b.md''\<rparr>"

text \<open>A single declared route whose path is the empty string.\<close>

definition emptyPath :: options where
  "emptyPath = plainOptions\<lparr>routes := [routeDef [] ]\<rparr>"

text \<open>The same crawl with a depth limit of one link.\<close>

definition shallowCrawl :: "int \<Rightarrow> options" where
  "shallowCrawl k = mixedCrawl\<lparr>crawl_maxDepth := 1, crawl_concurrency := k\<rparr>"

section \<open>Vocabulary of the properties\<close>

text \<open>
  A path whose segments are all ordinary names: none is empty, \<open>.\<close> or \<open>..\<close>. Such a
  path has no leading, trailing or doubled slash.
\<close>

definition ordinaryPath :: "string \<Rightarrow> bool" where
  "ordinaryPath p =
     list_all (\<lambda>seg. seg \<noteq> [] \<and> seg \<noteq> ''.'' \<and> seg \<noteq> ''..'') (splitSlash p)"

text \<open>The value \<open>deepMerge\<close> stores under a key of the source.\<close>

definition mergedValue :: "jv \<Rightarrow> (string \<times> jv) list \<Rightarrow> string \<Rightarrow> jv" where
  "mergedValue target source key =
     (let v = getProp (JObj source) key in
      if truthy v \<and> typeofObject v \<and> \<not> isArray v \<and> \<not> isRegExp v
      then JObj (deepMerge (let t = getProp target key in if truthy t then t else JObj [])
                   (props v))
      else v)"

text \<open>
  The members of a batch that are still at work form a multiset of tasks;
  \<open>capturing\<close> collects the routes whose capture has not finished yet.
\<close>

fun routeOf :: "task \<Rightarrow> string multiset" where
  "routeOf (Capturing r d) = {#r#}"
| "routeOf (Patching d) = {#}"

definition capturing :: "task multiset \<Rightarrow> string multiset" where
  "capturing M = (\<Sum>t\<in>#M. routeOf t)"

fun taskDepth :: "task \<Rightarrow> int" where
  "taskDepth (Capturing r d) = d"
| "taskDepth (Patching d) = d"

definition patching :: "task multiset \<Rightarrow> bool" where
  "patching M = (\<exists>d. Patching d \<in># M)"

text \<open>
  \<open>tracked\<close>: no route was added to \<open>visited\<close> twice, and every captured page and every
  capture under way has its own entry there.
\<close>

definition tracked :: "task multiset \<Rightarrow> state \<Rightarrow> bool" where
  "tracked M s =
     (distinct (visited s) \<and> mset (map cp_route (captured s)) + capturing M \<subseteq># mset (visited s))"

text \<open>
  \<open>loads\<close>: the page of a route loads and is written. \<open>accounted\<close>: the captured pages,
  together with the captures under way that will succeed, are exactly the visited
  routes that load.
\<close>

definition loads :: "site \<Rightarrow> string \<Rightarrow> bool" where
  "loads web r = (case web r of Rendered (Loaded t hs) True \<Rightarrow> True | _ \<Rightarrow> False)"

definition accounted :: "site \<Rightarrow> task multiset \<Rightarrow> state \<Rightarrow> bool" where
  "accounted web M s =
     (mset (map cp_route (captured s)) + filter_mset (loads web) (capturing M)
        = filter_mset (loads web) (mset (visited s)))"

text \<open>
  \<open>progressed n q\<close>: since a state with \<open>n\<close> captured pages, either a page was
  captured or the queue has length \<open>q\<close>.
\<close>

definition progressed :: "nat \<Rightarrow> nat \<Rightarrow> state \<Rightarrow> bool" where
  "progressed n q s =
     (n < length (captured s) \<or> (length (captured s) = n \<and> length (queue s) = q))"

text \<open>
  \<open>depthsPatched rest D\<close>: the queue is \<open>rest\<close> followed by the entries harvested in
  this batch; each of them is unresolved or has a depth one above a depth of \<open>D\<close>;
  while one is unresolved a patch loop is still to run; and the members at work have
  their depths in \<open>D\<close>.
\<close>

definition depthsPatched :: "QueueEntry list \<Rightarrow> int set \<Rightarrow> task multiset \<Rightarrow> state \<Rightarrow> bool" where
  "depthsPatched rest D M s =
     (\<exists>new. queue s = rest @ new
        \<and> (\<forall>e\<in>set new. depth e = - 1 \<or> depth e - 1 \<in> D)
        \<and> ((\<exists>e\<in>set new. depth e = - 1) \<longrightarrow> patching M)
        \<and> (\<forall>t\<in>#M. taskDepth t \<in> D))"

text \<open>
  \<open>ordersRoutes cmp rs\<close>: on the route keys \<open>rs\<close> the comparison is a strict total
  order (it is zero only on equal keys, antisymmetric and transitive).
\<close>

definition ordersRoutes :: "(string \<Rightarrow> string \<Rightarrow> int) \<Rightarrow> string list \<Rightarrow> bool" where
  "ordersRoutes cmp rs =
     list_all (\<lambda>a. list_all (\<lambda>b.
        (cmp a b = 0) = (a = b) \<and> (cmp a b < 0) = (0 < cmp b a)
        \<and> list_all (\<lambda>c. \<not> (cmp a b < 0 \<and> cmp b c < 0) \<or> cmp a c < 0) rs) rs) rs"

abbreviation (input) before ::
  "(string \<Rightarrow> string \<Rightarrow> int) \<Rightarrow> CapturedPage \<Rightarrow> CapturedPage \<Rightarrow> bool" where
  "before cmp x y \<equiv> cmp (cp_route x) (cp_route y) < 0"

text \<open>
  The two middle stages of \<open>normalizeRoute\<close>: \<open>stripped\<close> is the trimmed input cut at
  the first \<open>#\<close> (and at the first \<open>?\<close> when the query is stripped), \<open>lead\<close> gives it
  its leading slash.
\<close>

definition lead :: "string \<Rightarrow> string" where
  "lead q = (if \<not> startsWith q ''/''
             then (if startsWith q ''./'' then sliceFrom q 1 else ''/'' @ q) else q)"

definition stripped :: "bool \<Rightarrow> string \<Rightarrow> string" where
  "stripped sq s =
     (let h = takeWhile (\<lambda>x. x \<noteq> CHR ''#'') (trim s)
      in if sq then takeWhile (\<lambda>x. x \<noteq> CHR ''?'') h else h)"

text \<open>
  The exclusion predicate: some rule is a string contained in the route, or a pattern
  that matches the route. \<open>unflagged\<close>: no pattern carries the \<open>g\<close> or \<open>y\<close> flag.
  \<open>filtered\<close>: the rules are as configured, and no captured page and no capture under
  way has an excluded route.
\<close>

definition matchesRule :: "string \<Rightarrow> rule \<Rightarrow> bool" where
  "matchesRule r p =
     (case p of Str w \<Rightarrow> includesStr r w | RegExp flagged exec lastIndex \<Rightarrow> exec r 0 \<noteq> None)"

definition excludedBy :: "rule list \<Rightarrow> string \<Rightarrow> bool" where
  "excludedBy ps r = list_ex (matchesRule r) ps"

definition unflagged :: "rule list \<Rightarrow> bool" where
  "unflagged ps =
     list_all (\<lambda>p. case p of Str w \<Rightarrow> True | RegExp flagged exec lastIndex \<Rightarrow> \<not> flagged) ps"

definition filtered :: "rule list \<Rightarrow> task multiset \<Rightarrow> state \<Rightarrow> bool" where
  "filtered ps M s =
     (rules s = ps
      \<and> (\<forall>r\<in>set (map cp_route (captured s)) \<union> set_mset (capturing M). \<not> excludedBy ps r))"

text \<open>\<open>within b\<close>: the captured pages and the captures under way number at most \<open>b\<close>.\<close>

definition within :: "nat \<Rightarrow> task multiset \<Rightarrow> state \<Rightarrow> bool" where
  "within b M s = (length (captured s) + size (capturing M) \<le> b)"

section \<open>Properties of route normalization\<close>

lemma indexOf_absent: "c \<notin> set s \<Longrightarrow> indexOf s c = - 1"
  by (induction s) (auto simp: Let_def)

lemma indexOf_present:
  "c \<in> set s \<Longrightarrow> 0 \<le> indexOf s c \<and> take (nat (indexOf s c)) s = takeWhile (\<lambda>x. x \<noteq> c) s"
proof (induction s)
  case Nil
  then show ?case by simp
next
  case (Cons x s)
  show ?case
  proof (cases "x = c")
    case True
    then show ?thesis by simp
  next
    case False
    with Cons have "0 \<le> indexOf s c" "take (nat (indexOf s c)) s = takeWhile (\<lambda>x. x \<noteq> c) s"
      by auto
    with False show ?thesis by (simp add: Let_def nat_add_distrib)
  qed
qed

lemma cut_takeWhile:
  "(if 0 \<le> indexOf s c then slice s 0 (nat (indexOf s c)) else s) = takeWhile (\<lambda>x. x \<noteq> c) s"
proof (cases "c \<in> set s")
  case True
  with indexOf_present [OF True] show ?thesis by (simp add: slice_def)
next
  case False
  then have "\<forall>x\<in>set s. x \<noteq> c" by blast
  then have tw: "takeWhile (\<lambda>x. x \<noteq> c) s = s" by (simp only: takeWhile_eq_all_conv)
  from False have "indexOf s c = - 1" by (rule indexOf_absent)
  then show ?thesis unfolding tw by simp
qed

lemma set_collapseSlashes: "set (collapseSlashes s) \<subseteq> set s"
  by (induction s rule: collapseSlashes.induct) auto

lemma collapseSlashes_hd:
  "s \<noteq> [] \<Longrightarrow> collapseSlashes s \<noteq> [] \<and> hd (collapseSlashes s) = hd s"
  by (induction s rule: collapseSlashes.induct) auto

lemma collapseSlashes_idem: "collapseSlashes (collapseSlashes s) = collapseSlashes s"
proof (induction s rule: collapseSlashes.induct)
  case (1 a b s)
  show ?case
  proof (cases "a = CHR ''/'' \<and> b = CHR ''/''")
    case True
    with 1 show ?thesis by simp
  next
    case False
    from collapseSlashes_hd [of "b # s"] obtain b' s' where
      bs: "collapseSlashes (b # s) = b' # s'" "b' = b"
      by (cases "collapseSlashes (b # s)") auto
    with False 1 show ?thesis by auto
  qed
qed simp_all

lemma startsWith_hd: "startsWith s p \<Longrightarrow> p \<noteq> [] \<Longrightarrow> s \<noteq> [] \<and> hd s = hd p"
  by (cases s; cases p) (auto simp: startsWith_def)

lemma trim_unchanged:
  "s \<noteq> [] \<Longrightarrow> \<not> isWhiteSpace (hd s) \<Longrightarrow> \<not> isWhiteSpace (last s) \<Longrightarrow> trim s = s"
proof -
  assume s: "s \<noteq> []" and h: "\<not> isWhiteSpace (hd s)" and l: "\<not> isWhiteSpace (last s)"
  from s h have "dropWhile isWhiteSpace s = s" by (cases s) auto
  moreover from s l have "dropWhile isWhiteSpace (rev s) = rev s"
    by (cases "rev s") (auto simp: last_rev [symmetric] hd_rev)
  ultimately show ?thesis by (simp add: trim_def)
qed

lemma normalizeRoute_alt:
  "normalizeRoute s sq =
     (if s = [] then None
      else if startsWith s ''mailto:'' \<or> startsWith s ''tel:'' \<or> startsWith s ''javascript:''
      then None
      else if startsWith (trim s) ''http://'' \<or> startsWith (trim s) ''https://'' then None
      else if stripped sq s = [] then None
      else Some (collapseSlashes (lead (stripped sq s))))"
  unfolding normalizeRoute_def Let_def cut_takeWhile lead_def stripped_def by simp

lemma normalizeRoute_shape:
  assumes "normalizeRoute s sq = Some r"
  shows "r \<noteq> []" and "hd r = CHR ''/''" and "CHR ''#'' \<notin> set r"
    and "sq \<Longrightarrow> CHR ''?'' \<notin> set r" and "collapseSlashes r = r"
proof -
  let ?h = "takeWhile (\<lambda>x. x \<noteq> CHR ''#'') (trim s)"
  let ?q = "stripped sq s"
  let ?p = "lead ?q"
  from assms have r: "r = collapseSlashes ?p" and q: "?q \<noteq> []"
    by (auto simp: normalizeRoute_alt split: if_splits)
  have hash: "CHR ''#'' \<notin> set ?q"
    using set_takeWhileD [of "CHR ''#''" "\<lambda>x. x \<noteq> CHR ''#''" "trim s"]
      set_takeWhileD [of "CHR ''#''" "\<lambda>x. x \<noteq> CHR ''?''" ?h]
    by (auto simp: stripped_def Let_def split: if_splits)
  have quest: "sq \<Longrightarrow> CHR ''?'' \<notin> set ?q"
    using set_takeWhileD [of "CHR ''?''" "\<lambda>x. x \<noteq> CHR ''?''" ?h]
    by (auto simp: stripped_def Let_def)
  have sub: "set ?p \<subseteq> insert (CHR ''/'') (set ?q)"
    by (auto simp: lead_def sliceFrom_def dest: in_set_dropD)
  have p: "?p \<noteq> [] \<and> hd ?p = CHR ''/''"
  proof (cases "startsWith ?q ''/''")
    case True
    with startsWith_hd [OF True] show ?thesis by (simp add: lead_def)
  next
    case False
    show ?thesis
    proof (cases "startsWith ?q ''./''")
      case True
      then obtain t where "?q = CHR ''.'' # CHR ''/'' # t"
        by (cases ?q rule: list.exhaust; cases "tl ?q") (auto simp: startsWith_def)
      with False True show ?thesis by (simp add: lead_def sliceFrom_def)
    next
      case False
      with \<open>\<not> startsWith ?q ''/''\<close> show ?thesis by (simp add: lead_def)
    qed
  qed
  with collapseSlashes_hd [of ?p] r show "r \<noteq> []" "hd r = CHR ''/''" by auto
  from r set_collapseSlashes [of ?p] sub hash show "CHR ''#'' \<notin> set r" by auto
  from r set_collapseSlashes [of ?p] sub quest show "sq \<Longrightarrow> CHR ''?'' \<notin> set r" by auto
  from r show "collapseSlashes r = r" by (simp add: collapseSlashes_idem)
qed

text \<open>
  C5. Normalization is not idempotent on every input: \<open>trim\<close> runs before the fragment
  is cut off, so white space in front of a \<open>#\<close> (or \<open>?\<close>) survives the first pass as
  trailing white space and is removed by the second.
\<close>

theorem normalizeRoute_trailing_space:
  "normalizeRoute ''/a #x'' True = Some ''/a '' \<and> normalizeRoute ''/a '' True = Some ''/a''"
  by (simp add: normalizeRoute_def startsWith_def trim_def isWhiteSpace_def slice_def sliceFrom_def)

text \<open>
  Trailing white space is the only obstacle: a normalized route that does not end in
  white space normalizes to itself.
\<close>

lemma normalizeRoute_idempotent_without_trailing_space:
  assumes "normalizeRoute s sq = Some r" and "\<not> isWhiteSpace (last r)"
  shows "normalizeRoute r sq = Some r"
proof -
  note sh = normalizeRoute_shape [OF assms(1)]
  have ws: "\<not> isWhiteSpace (CHR ''/'')" by (simp add: isWhiteSpace_def)
  with sh(1,2) assms(2) have t: "trim r = r" by (simp add: trim_unchanged)
  have no: "\<not> startsWith r p" if "p \<noteq> []" "hd p \<noteq> CHR ''/''" for p
    using startsWith_hd [of r p] that sh(2) by auto
  have sl: "startsWith r ''/''" using sh(1,2) by (cases r) (auto simp: startsWith_def)
  have h: "indexOf r (CHR ''#'') = - 1" using sh(3) by (rule indexOf_absent)
  have q: "sq \<Longrightarrow> indexOf r (CHR ''?'') = - 1" using sh(4) by (simp add: indexOf_absent)
  show ?thesis
    using sh(1,5) t sl h q no [of "''mailto:''"] no [of "''tel:''"] no [of "''javascript:''"]
      no [of "''http://''"] no [of "''https://''"]
    by (simp add: normalizeRoute_def Let_def)
qed

section \<open>Properties of the output paths\<close>

lemma splitSlash_nonempty: "splitSlash s \<noteq> []"
  by (induction s) (auto split: list.splits)

lemma joinSlash_Cons: "segs \<noteq> [] \<Longrightarrow> joinSlash ((c # seg) # segs) = c # joinSlash (seg # segs)"
  by (cases segs) auto

lemma joinSlash_splitSlash: "joinSlash (splitSlash s) = s"
proof (induction s)
  case Nil
  then show ?case by simp
next
  case (Cons c s)
  obtain seg segs where sp: "splitSlash s = seg # segs"
    using splitSlash_nonempty [of s] by (cases "splitSlash s") auto
  show ?case
  proof (cases "c = CHR ''/''")
    case True
    with Cons sp show ?thesis by simp
  next
    case False
    with Cons sp show ?thesis by (cases segs) auto
  qed
qed

lemma splitSlash_append:
  "splitSlash (a @ CHR ''/'' # b) = splitSlash a @ splitSlash b"
  by (induction a) (auto split: list.splits simp: splitSlash_nonempty)

lemma normalizeSegments_ordinary:
  "list_all (\<lambda>seg. seg \<noteq> [] \<and> seg \<noteq> ''.'' \<and> seg \<noteq> ''..'') segs
     \<Longrightarrow> normalizeSegments allow res segs = res @ segs"
  by (induction segs arbitrary: res) auto

lemma ordinaryPath_ends:
  assumes "ordinaryPath p"
  shows "p \<noteq> []" and "hd p \<noteq> CHR ''/''" and "last p \<noteq> CHR ''/''"
proof -
  show ne: "p \<noteq> []" using assms by (auto simp: ordinaryPath_def)
  show "hd p \<noteq> CHR ''/''" using assms ne by (cases p) (auto simp: ordinaryPath_def)
  have "last (splitSlash p) = []" if "last p = CHR ''/''"
  proof -
    have "butlast p @ [last p] = p" using ne by simp
    with that have eq: "butlast p @ CHR ''/'' # [] = p" by simp
    have "splitSlash (butlast p @ CHR ''/'' # []) = splitSlash (butlast p) @ [[]]"
      by (simp only: splitSlash_append splitSlash.simps(1))
    then show ?thesis by (simp add: eq)
  qed
  moreover have "last (splitSlash p) \<in> set (splitSlash p)"
    using splitSlash_nonempty [of p] by simp
  then have "last (splitSlash p) \<noteq> []"
    using assms by (auto simp: ordinaryPath_def list_all_iff)
  ultimately show "last p \<noteq> CHR ''/''" by blast
qed

lemma posixJoin_ordinary:
  assumes a: "ordinaryPath a" and b: "ordinaryPath b"
  shows "posixJoin a b = a @ ''/'' @ b"
proof -
  let ?j = "a @ CHR ''/'' # b"
  have ne: "a \<noteq> []" "b \<noteq> []" using ordinaryPath_ends a b by auto
  have "list_all (\<lambda>seg. seg \<noteq> [] \<and> seg \<noteq> ''.'' \<and> seg \<noteq> ''..'') (splitSlash ?j)"
    using a b by (simp add: splitSlash_append ordinaryPath_def)
  then have ns: "normalizeString ?j True = ?j"
    by (simp add: normalizeString_def normalizeSegments_ordinary joinSlash_splitSlash)
  have hd: "hd ?j \<noteq> CHR ''/''" using ordinaryPath_ends(2) [OF a] ne by (cases a) auto
  have last: "last ?j \<noteq> CHR ''/''" using ordinaryPath_ends(3) [OF b] ne by simp
  show ?thesis using ne hd last ns
    by (simp add: posixJoin_def posixNormalize_def Let_def)
qed

text \<open>
  The output path is a function of the route and the layout alone. Under sibling
  layout the route \<open>/\<close> maps to \<open>index.html.md\<close>, a route ending in a slash to the
  route without its leading slash followed by \<open>index.html.md\<close>, and any other route to
  the route without its leading slash followed by \<open>.md\<close>.
\<close>

lemma sibling_path_rule:
  "routeToMdWebPath r =
     (if r = ''/'' then ''index.html.md''
      else if endsWith r ''/'' then drop 1 r @ ''index.html.md''
      else drop 1 r @ ''.md'')
   \<and> mdRelPath ''sibling'' sub r = routeToMdWebPath r"
  by (simp add: routeToMdWebPath_def sliceFrom_def mdRelPath_def)

text \<open>
  Under subdir layout the path is the join of the subdirectory and the sibling path.
  It is the sibling path prefixed with the subdirectory and a slash when both consist
  of ordinary segments.
\<close>

lemma subdir_path_prefixed:
  assumes "ordinaryPath sub" and "ordinaryPath (routeToMdWebPath r)"
  shows "mdRelPath ''subdir'' sub r = sub @ ''/'' @ routeToMdWebPath r"
  using assms by (simp add: mdRelPath_def posixJoin_ordinary)

lemma subdir_path_prefixed_example:
  "ordinaryPath ''ai'' \<and> ordinaryPath (routeToMdWebPath ''/docs/api'')
   \<and> mdRelPath ''subdir'' ''ai'' ''/docs/api'' = ''ai/docs/api.md''"
proof -
  have a: "ordinaryPath ''ai''" by (simp add: ordinaryPath_def)
  have b: "ordinaryPath (routeToMdWebPath ''/docs/api'')"
    by (simp add: ordinaryPath_def routeToMdWebPath_def endsWith_def sliceFrom_def)
  show ?thesis using a b subdir_path_prefixed [OF a b]
    by (simp add: routeToMdWebPath_def endsWith_def sliceFrom_def)
qed

text \<open>The routes of the mapping table, under both layouts.\<close>

lemma output_path_examples:
  "map routeToMdWebPath [''/'', ''/pricing'', ''/docs/'', ''/docs/api'']
     = [''index.html.md'', ''pricing.md'', ''docs/index.html.md'', ''docs/api.md'']
   \<and> map (mdRelPath ''subdir'' ''ai'') [''/'', ''/pricing'', ''/docs/'', ''/docs/api'']
     = [''ai/index.html.md'', ''ai/pricing.md'', ''ai/docs/index.html.md'', ''ai/docs/api.md'']"
  by (simp add: mdRelPath_def routeToMdWebPath_def endsWith_def sliceFrom_def posixJoin_def
      posixNormalize_def normalizeString_def)

text \<open>
  C6. Under subdir layout the output path is not always prefixed with the
  subdirectory. The relative link \<open>../x\<close> normalizes to the route \<open>/../x\<close>, whose sibling
  path is \<open>../x.md\<close>; the join with the subdirectory \<open>ai\<close> resolves the \<open>..\<close> segment and
  gives \<open>x.md\<close>. A crawl that finds this link on the root page records the page under
  \<open>x.md\<close>, outside the subdirectory, and the index links to it there.
\<close>

theorem subdir_prefix_lost:
  "normalizeRoute ''../x'' True = Some ''/../x''
   \<and> routeToMdWebPath ''/../x'' = ''../x.md''
   \<and> mdRelPath ''subdir'' ''ai'' ''/../x'' = ''x.md''
   \<and> \<not> startsWith (mdRelPath ''subdir'' ''ai'' ''/../x'') ''ai''
   \<and> map_option (map cp_mdRelPath)
         (pagesWritten (closeBundle codeCompare subdirCrawl upwardLink [[], []]))
       = Some [''ai/index.html.md'', ''x.md'']
   \<and> map_option (\<lambda>doc. includesStr doc ''](x.md)'')
         (indexWritten (closeBundle codeCompare subdirCrawl upwardLink [[], []]))
       = Some True"
  by code_simp

section \<open>Properties of option merging\<close>

lemma map_of_replaceProp:
  "key \<in> set (map fst kvs) \<Longrightarrow> map_of (replaceProp kvs key v) = (map_of kvs)(key \<mapsto> v)"
  by (induction kvs) (force simp: fun_upd_twist)+

lemma map_of_insertProp:
  "key \<notin> set (map fst kvs) \<Longrightarrow> map_of (insertProp kvs key v) = (map_of kvs)(key \<mapsto> v)"
  by (induction kvs) (auto simp: fun_upd_twist split: option.splits)

lemma map_of_setProp: "map_of (setProp kvs key v) = (map_of kvs)(key \<mapsto> v)"
  by (simp add: setProp_def map_of_replaceProp map_of_insertProp)

lemma map_of_fold_setProp:
  "map_of (fold (\<lambda>key result. setProp result key (f key)) keys init) k
     = (if k \<in> set keys then Some (f k) else map_of init k)"
  by (induction keys arbitrary: init) (auto simp: map_of_setProp)

lemma deepMerge_fold:
  "deepMerge target source
     = fold (\<lambda>key result. setProp result key (mergedValue target source key))
         (map fst source) (props target)"
proof -
  have "(\<lambda>key result.
            (let v = getProp (JObj source) key in
             if truthy v \<and> typeofObject v \<and> \<not> isArray v \<and> \<not> isRegExp v
             then setProp result key
                    (JObj (deepMerge
                             (let t = getProp target key in if truthy t then t else JObj [])
                             (props v)))
             else setProp result key v))
        = (\<lambda>key result. setProp result key (mergedValue target source key))"
    by (intro ext) (simp add: mergedValue_def Let_def)
  then show ?thesis by (subst deepMerge.simps) simp
qed

lemma getProp_deepMerge:
  "getProp (JObj (deepMerge target source)) key
     = (if key \<in> fst ` set source then mergedValue target source key else getProp target key)"
  by (simp add: getProp_def deepMerge_fold map_of_fold_setProp)

lemma getProp_absent: "key \<notin> fst ` set source \<Longrightarrow> getProp (JObj source) key = JUndefined"
  by (simp add: getProp_def map_of_eq_None_iff [THEN iffD2])

lemma getPath_JUndefined: "getPath JUndefined keys = JUndefined"
  by (induction keys) (simp_all add: getProp_def)

lemma deepMerge_keeps_array:
  assumes "getPath (JObj userOptions) (key # keys) = JArr xs"
  shows "getPath (JObj (deepMerge target userOptions)) (key # keys) = JArr xs"
  using assms
proof (induction keys arbitrary: key target userOptions)
  case Nil
  then have v: "getProp (JObj userOptions) key = JArr xs" by simp
  then have "key \<in> fst ` set userOptions" using getProp_absent by fastforce
  with v show ?case by (simp add: getProp_deepMerge mergedValue_def)
next
  case (Cons k ks)
  let ?v = "getProp (JObj userOptions) key"
  from Cons.prems have p: "getPath ?v (k # ks) = JArr xs" by simp
  have mem: "key \<in> fst ` set userOptions"
  proof (rule ccontr)
    assume "key \<notin> fst ` set userOptions"
    then have "?v = JUndefined" by (rule getProp_absent)
    with p getPath_JUndefined [of "k # ks"] show False by simp
  qed
  show ?case
  proof (cases "truthy ?v \<and> typeofObject ?v \<and> \<not> isArray ?v \<and> \<not> isRegExp ?v")
    case True
    then obtain kvs where kvs: "?v = JObj kvs" by (cases ?v) auto
    let ?t = "(let t = getProp target key in if truthy t then t else JObj [])"
    from p kvs have "getPath (JObj kvs) (k # ks) = JArr xs" by simp
    then have "getPath (JObj (deepMerge ?t kvs)) (k # ks) = JArr xs" by (rule Cons.IH)
    moreover have "getProp (JObj (deepMerge target userOptions)) key = JObj (deepMerge ?t kvs)"
      using mem True kvs by (simp add: getProp_deepMerge mergedValue_def)
    ultimately show ?thesis by simp
  next
    case False
    then have "getProp (JObj (deepMerge target userOptions)) key = ?v"
      using mem by (auto simp add: getProp_deepMerge mergedValue_def Let_def)
    with p show ?thesis by simp
  qed
qed

text \<open>
  C9. Merging replaces an array-valued option wholesale: wherever the user's options
  hold an array (at the top level, as \<open>exclude\<close>, or nested, as \<open>crawl.seeds\<close>), the
  merged options hold exactly that array at the same place, whatever the target (the
  defaults) held there.
\<close>

theorem deepMerge_replaces_arrays:
  assumes "getPath (JObj userOptions) (key # keys) = JArr xs"
  shows "getPath (JObj (deepMerge target userOptions)) (key # keys) = JArr xs
         \<and> getPath (mergedOptions userOptions) (key # keys) = JArr xs"
  using deepMerge_keeps_array [OF assms] by (simp add: mergedOptions_def)

text \<open>An \<open>exclude\<close> list of the user's discards the three default exclusions.\<close>

theorem deepMerge_replaces_arrays_witness:
  "getPath (JObj [(''exclude'', JArr [JStr ''/private''])]) [''exclude''] = JArr [JStr ''/private'']
   \<and> getPath (mergedOptions [(''exclude'', JArr [JStr ''/private''])]) [''exclude'']
       = JArr [JStr ''/private'']
   \<and> getPath defaults [''exclude''] = JArr [JStr ''/login'', JStr ''/admin'', JStr ''/account'']"
proof -
  have h: "getPath (JObj [(''exclude'', JArr [JStr ''/private''])]) [''exclude'']
             = JArr [JStr ''/private'']"
    by (simp add: getProp_def)
  have d: "getPath defaults [''exclude'']
             = JArr [JStr ''/login'', JStr ''/admin'', JStr ''/account'']"
    by (simp add: defaults_def getProp_def)
  show ?thesis
    using h d deepMerge_replaces_arrays [OF h, of defaults] by simp
qed

text \<open>
  The keys of the merged object: array indices first, in ascending order, then the
  other keys in the order they were created.
\<close>

lemma deepMerge_key_order:
  "deepMerge (JObj [(''a'', JNum 1)])
     [(''1'', JNum 2), (''b'', JNum 3), (''0'', JNum 4), (''01'', JNum 5), (''a'', JNum 0)]
   = [(''0'', JNum 4), (''1'', JNum 2), (''a'', JNum 0), (''b'', JNum 3), (''01'', JNum 5)]"
  by code_simp

section \<open>Properties of a batch\<close>

lemma capturing_simps [simp]:
  "capturing {#} = {#}"
  "capturing (add_mset t M) = routeOf t + capturing M"
  by (simp_all add: capturing_def)

subsection \<open>Link harvesting\<close>

lemma harvest_visited [simp]: "visited (harvest c hs st) = visited st"
  by (induction hs arbitrary: st) (auto simp: Let_def split: option.splits prod.splits)

lemma harvest_captured [simp]: "captured (harvest c hs st) = captured st"
  by (induction hs arbitrary: st) (auto simp: Let_def split: option.splits prod.splits)

lemma harvest_Cons_cases:
  "harvest c (h # hs) st = harvest c hs st
   \<or> (\<exists>rs. harvest c (h # hs) st = harvest c hs (st\<lparr>rules := rs\<rparr>))
   \<or> (\<exists>rs b. b \<notin> set (visited st)
          \<and> harvest c (h # hs) st
              = harvest c hs (st\<lparr>rules := rs, queue := queue st @ [\<lparr>route = b, depth = - 1\<rparr>]\<rparr>))"
  by (auto simp: Let_def split: option.splits prod.splits)

lemma harvest_queue:
  "\<exists>new. queue (harvest c hs st) = queue st @ new
          \<and> (\<forall>e\<in>set new. depth e = - 1 \<and> route e \<notin> set (visited st))"
proof (induction hs arbitrary: st)
  case Nil
  then show ?case by simp
next
  case (Cons h hs)
  from harvest_Cons_cases [of c h hs st]
  consider (skip) "harvest c (h # hs) st = harvest c hs st"
    | (excl) rs where "harvest c (h # hs) st = harvest c hs (st\<lparr>rules := rs\<rparr>)"
    | (push) rs b where "b \<notin> set (visited st)"
        "harvest c (h # hs) st
           = harvest c hs (st\<lparr>rules := rs, queue := queue st @ [\<lparr>route = b, depth = - 1\<rparr>]\<rparr>)"
    by blast
  then show ?case
  proof cases
    case skip
    then show ?thesis using Cons [of st] by simp
  next
    case excl
    then show ?thesis using Cons [of "st\<lparr>rules := rs\<rparr>"] by simp
  next
    case push
    let ?st2 = "st\<lparr>rules := rs, queue := queue st @ [\<lparr>route = b, depth = - 1\<rparr>]\<rparr>"
    from Cons [of ?st2] obtain new where
      "queue (harvest c hs ?st2) = queue ?st2 @ new"
      "\<forall>e\<in>set new. depth e = - 1 \<and> route e \<notin> set (visited ?st2)" by blast
    with push show ?thesis
      by (intro exI [of _ "\<lparr>route = b, depth = - 1\<rparr> # new"]) simp
  qed
qed

subsection \<open>The two parts of a capture\<close>

lemma captureOneStart_False:
  assumes "captureOneStart c r st = (False, st')"
  shows "visited st' = visited st" "captured st' = captured st" "queue st' = queue st"
  using assms by (auto simp: captureOneStart_def Let_def split: if_splits prod.splits)

lemma captureOneStart_True:
  assumes "captureOneStart c r st = (True, st')"
  shows "visited st' = visited st @ [r]" "r \<notin> set (visited st)"
    "captured st' = captured st" "queue st' = queue st"
    "int (length (captured st)) < maxPages c"
  using assms by (auto simp: captureOneStart_def Let_def split: if_splits prod.splits)

lemma captureOneStart_visited:
  "r \<in> set (visited st) \<Longrightarrow> captureOneStart c r st = (False, st)"
  by (simp add: captureOneStart_def)

lemma captureOneFinish_Inr:
  assumes "captureOneFinish c web r st = Inr st'"
  shows "visited st' = visited st"
    and "(\<exists>s. web r = Rendered (Failed s) True \<and> st' = st)
         \<or> (\<exists>t hs. web r = Rendered (Loaded t hs) True
               \<and> captured st' = captured st @ [capturedPage c r t]
               \<and> (if crawl c
                   then st' = harvest c hs (st\<lparr>captured := captured st @ [capturedPage c r t]\<rparr>)
                   else st' = st\<lparr>captured := captured st @ [capturedPage c r t]\<rparr>))"
  using assms
  by (auto simp: captureOneFinish_def Let_def split: rendering.splits page.splits if_splits)

lemma cp_route_capturedPage [simp]: "cp_route (capturedPage c r t) = r"
  by (simp add: capturedPage_def Let_def)

lemma patchQueue_simps [simp]:
  "visited (patchQueue c d st) = visited st"
  "captured (patchQueue c d st) = captured st"
  "length (queue (patchQueue c d st)) = length (queue st)"
  by (simp_all add: patchQueue_def patchDepths_def)

subsection \<open>Dispatch\<close>

lemma dispatchMember_cases:
  assumes "dispatchMember c e st = (m, st')"
  shows "captured st' = captured st" "queue st' = queue st"
    "visited st' = visited st @ map (\<lambda>r. r) (case m of InFlight r d \<Rightarrow> [r] | _ \<Rightarrow> [])"
    "case m of InFlight r d \<Rightarrow> r = route e \<and> d = depth e \<and> r \<notin> set (visited st)
                  \<and> \<not> (crawl c \<and> maxDepth c < d)
                  \<and> int (length (captured st)) < maxPages c
     | Early d \<Rightarrow> d = depth e \<and> \<not> (crawl c \<and> maxDepth c < d)
     | Skipped \<Rightarrow> True"
  using assms
  by (auto simp: dispatchMember_def Let_def split: if_splits prod.splits
      dest: captureOneStart_True captureOneStart_False)


lemma dispatchAll_Cons:
  assumes "dispatchAll c (e # es) st = (ms, st')"
  obtains m st1 ms' where "dispatchMember c e st = (m, st1)"
    "dispatchAll c es st1 = (ms', st')" "ms = m # ms'"
  using assms by (auto simp: Let_def split: prod.splits)

lemma dispatchAll_props:
  assumes "dispatchAll c es st = (ms, st')"
  shows "captured st' = captured st \<and> queue st' = queue st
    \<and> mset (visited st') = mset (visited st) + capturing (mset (inFlight ms))
    \<and> (distinct (visited st) \<longrightarrow> distinct (visited st'))
    \<and> (\<forall>t\<in>set (inFlight ms). \<exists>e\<in>set es. t = Capturing (route e) (depth e)
           \<and> \<not> (crawl c \<and> maxDepth c < depth e))
    \<and> (\<forall>d. Early d \<in> set ms \<longrightarrow> (\<exists>e\<in>set es. d = depth e \<and> \<not> (crawl c \<and> maxDepth c < d)))"
  using assms
proof (induction es arbitrary: st ms st')
  case Nil
  then show ?case by simp
next
  case (Cons e es)
  from Cons.prems obtain m st1 ms' where
    m: "dispatchMember c e st = (m, st1)" and rest: "dispatchAll c es st1 = (ms', st')"
    and ms: "ms = m # ms'" by (rule dispatchAll_Cons)
  note ih = Cons.IH [OF rest]
  note dm = dispatchMember_cases [OF m]
  show ?case
  proof (cases m)
    case Skipped
    with ih dm ms show ?thesis by auto
  next
    case (Early d)
    with ih dm ms show ?thesis by auto
  next
    case (InFlight r d)
    with dm have v: "visited st1 = visited st @ [r]" and nin: "r \<notin> set (visited st)"
      and rd: "r = route e" "d = depth e" and dep: "\<not> (crawl c \<and> maxDepth c < d)" by auto
    from ih v nin have "distinct (visited st) \<longrightarrow> distinct (visited st')" by simp
    moreover from ih v have "mset (visited st') = mset (visited st) + capturing (mset (inFlight ms))"
      using ms InFlight by simp
    moreover from ih dm have "captured st' = captured st \<and> queue st' = queue st" by simp
    moreover from ih rd dep have "\<forall>t\<in>set (inFlight ms). \<exists>e'\<in>set (e # es).
        t = Capturing (route e') (depth e') \<and> \<not> (crawl c \<and> maxDepth c < depth e')"
      using ms InFlight by auto
    moreover from ih have "\<forall>d. Early d \<in> set ms \<longrightarrow>
        (\<exists>e'\<in>set (e # es). d = depth e' \<and> \<not> (crawl c \<and> maxDepth c < d))"
      using ms InFlight by auto
    ultimately show ?thesis by blast
  qed
qed

lemma earlyPatches_simps [simp]:
  "visited (earlyPatches c ms st) = visited st"
  "captured (earlyPatches c ms st) = captured st"
  "length (queue (earlyPatches c ms st)) = length (queue st)"
  by (induction c ms st rule: earlyPatches.induct) simp_all

subsection \<open>A rule for the invariants of a batch\<close>

lemma mset_without_nth:
  "k < length ts \<Longrightarrow> mset ts = add_mset (ts ! k) (mset (take k ts @ drop (Suc k) ts))"
  by (metis add_mset_add_single id_take_nth_drop mset.simps(2) mset_append union_mset_add_mset_right)

lemma mset_update_nth:
  "k < length ts \<Longrightarrow> mset (ts[k := t]) = add_mset t (mset (take k ts @ drop (Suc k) ts))"
  by (simp add: upd_conv_take_nth_drop)

lemma finishTasks_rule:
  assumes "finishTasks c web ts st = Inr st'" and "Q (mset ts) st"
    and cap: "\<And>M r d s s'. Q (add_mset (Capturing r d) M) s \<Longrightarrow> captureOneFinish c web r s = Inr s'
                \<Longrightarrow> Q (add_mset (Patching d) M) s'"
    and pat: "\<And>M d s. Q (add_mset (Patching d) M) s \<Longrightarrow> Q M (patchQueue c d s)"
  shows "Q {#} st'"
  using assms(1,2)
proof (induction ts arbitrary: st)
  case Nil
  then show ?case by simp
next
  case (Cons t ts)
  show ?case
  proof (cases t)
    case (Capturing r d)
    with Cons.prems(1) obtain s1 where s1: "captureOneFinish c web r st = Inr s1"
      and fin: "finishTasks c web ts (patchQueue c d s1) = Inr st'"
      by (auto simp: stepTask_def split: sum.splits)
    from Cons.prems(2) Capturing have "Q (add_mset (Capturing r d) (mset ts)) st" by simp
    from pat [OF cap [OF this s1]] have "Q (mset ts) (patchQueue c d s1)" .
    with fin show ?thesis by (rule Cons.IH)
  next
    case (Patching d)
    with Cons.prems(1) have fin: "finishTasks c web ts (patchQueue c d st) = Inr st'"
      by (auto simp: stepTask_def)
    from Cons.prems(2) Patching have "Q (mset ts) (patchQueue c d st)" by (simp add: pat)
    with fin show ?thesis by (rule Cons.IH)
  qed
qed

lemma runTasks_rule:
  assumes "runTasks c web sched ts st = Inr st'" and "Q (mset ts) st"
    and cap: "\<And>M r d s s'. Q (add_mset (Capturing r d) M) s \<Longrightarrow> captureOneFinish c web r s = Inr s'
                \<Longrightarrow> Q (add_mset (Patching d) M) s'"
    and pat: "\<And>M d s. Q (add_mset (Patching d) M) s \<Longrightarrow> Q M (patchQueue c d s)"
  shows "Q {#} st'"
  using assms(1,2)
proof (induction sched arbitrary: ts st)
  case Nil
  then show ?case using finishTasks_rule [of c web ts st st' Q] cap pat by simp
next
  case (Cons k ks)
  show ?case
  proof (cases "k < length ts")
    case False
    with Cons show ?thesis by simp
  next
    case True
    let ?rest = "take k ts @ drop (Suc k) ts"
    from True have split: "mset ts = add_mset (ts ! k) (mset ?rest)" by (rule mset_without_nth)
    show ?thesis
    proof (cases "ts ! k")
      case (Capturing r d)
      with Cons.prems(1) True obtain s1 where s1: "captureOneFinish c web r st = Inr s1"
        and run: "runTasks c web ks (ts[k := Patching d]) s1 = Inr st'"
        by (auto simp: stepTask_def split: sum.splits)
      from Cons.prems(2) split Capturing have "Q (add_mset (Capturing r d) (mset ?rest)) st" by simp
      from cap [OF this s1] have "Q (mset (ts[k := Patching d])) s1"
        using True by (simp add: mset_update_nth)
      with run show ?thesis by (rule Cons.IH)
    next
      case (Patching d)
      with Cons.prems(1) True have run: "runTasks c web ks ?rest (patchQueue c d st) = Inr st'"
        by (auto simp: stepTask_def)
      from Cons.prems(2) split Patching have "Q (add_mset (Patching d) (mset ?rest)) st" by simp
      from pat [OF this] have "Q (mset ?rest) (patchQueue c d st)" .
      with run show ?thesis by (rule Cons.IH)
    qed
  qed
qed

lemma traverse_rule:
  assumes "traverse c web scheds st = Some (Inr st')" and "Inv st"
    and batch: "\<And>s sched s'. Inv s \<Longrightarrow> queue s \<noteq> [] \<Longrightarrow> int (length (captured s)) < maxPages c
                  \<Longrightarrow> runBatch c web sched s = Inr s' \<Longrightarrow> Inv s'"
  shows "Inv st'"
  using assms(1,2)
proof (induction scheds arbitrary: st)
  case Nil
  then show ?case by (simp split: if_splits)
next
  case (Cons sched scheds)
  show ?case
  proof (cases "queue st \<noteq> [] \<and> int (length (captured st)) < maxPages c")
    case False
    with Cons.prems show ?thesis by auto
  next
    case True
    with Cons.prems(1) obtain s1 where s1: "runBatch c web sched st = Inr s1"
      and tr: "traverse c web scheds s1 = Some (Inr st')"
      by (auto split: sum.splits)
    from batch [OF Cons.prems(2) _ _ s1] True have "Inv s1" by simp
    with tr show ?thesis by (rule Cons.IH)
  qed
qed

section \<open>Invariants of the traversal\<close>

subsection \<open>Visited routes and captured pages\<close>

lemma distinct_submset:
  assumes "mset ys \<subseteq># mset xs" and "distinct xs"
  shows "distinct ys"
proof -
  have le: "count (mset ys) a \<le> 1" for a
  proof -
    have "count (mset ys) a \<le> count (mset xs) a"
      using assms(1) by (rule mset_subset_eq_count)
    also have "\<dots> \<le> 1"
      using assms(2) by (simp add: distinct_count_atmost_1)
    finally show ?thesis .
  qed
  have "count (mset ys) a = (if a \<in> set ys then 1 else 0)" for a
  proof (cases "a \<in> set ys")
    case True
    then have "0 < count (mset ys) a" by simp
    with le [of a] have "count (mset ys) a = 1" by linarith
    with True show ?thesis by simp
  next
    case False
    then show ?thesis by (simp add: count_eq_zero_iff)
  qed
  then show ?thesis by (simp add: distinct_count_atmost_1)
qed

lemma tracked_capture:
  assumes "tracked (add_mset (Capturing r d) M) s" and "captureOneFinish c web r s = Inr s'"
  shows "tracked (add_mset (Patching d) M) s'"
proof -
  note fin = captureOneFinish_Inr [OF assms(2)]
  let ?A = "mset (map cp_route (captured s))" and ?A' = "mset (map cp_route (captured s'))"
  from fin(2) have "?A' \<subseteq># add_mset r ?A"
    by (auto split: if_splits)
  then have "?A' + capturing M \<subseteq># add_mset r ?A + capturing M"
    by (rule subset_mset.add_right_mono)
  also have "add_mset r ?A + capturing M = ?A + capturing (add_mset (Capturing r d) M)"
    by simp
  also have "\<dots> \<subseteq># mset (visited s)" using assms(1) by (simp only: tracked_def)
  finally show ?thesis using assms(1) fin(1) by (simp add: tracked_def)
qed

lemma tracked_patch: "tracked (add_mset (Patching d) M) s \<Longrightarrow> tracked M (patchQueue c d s)"
  by (simp add: tracked_def)

lemma runBatch_parts:
  assumes "runBatch c web sched st = Inr st'"
  obtains ms st1 where
    "dispatchAll c (map fixDepth (take (nat (concurrency c)) (queue st)))
       (st\<lparr>queue := drop (nat (concurrency c)) (queue st)\<rparr>) = (ms, st1)"
    "runTasks c web sched (inFlight ms) (earlyPatches c ms st1) = Inr st'"
  using assms by (auto simp: runBatch_def takeBatch_def Let_def split: prod.splits)

lemma runBatch_tracked:
  assumes "runBatch c web sched st = Inr st'" and "tracked {#} st"
  shows "tracked {#} st'"
proof -
  from assms(1) obtain ms st1 where
    d: "dispatchAll c (map fixDepth (take (nat (concurrency c)) (queue st)))
          (st\<lparr>queue := drop (nat (concurrency c)) (queue st)\<rparr>) = (ms, st1)"
    and r: "runTasks c web sched (inFlight ms) (earlyPatches c ms st1) = Inr st'"
    by (rule runBatch_parts)
  from dispatchAll_props [OF d] assms(2)
  have "tracked (mset (inFlight ms)) (earlyPatches c ms st1)"
    by (simp add: tracked_def)
  with r show ?thesis
    by (rule runTasks_rule) (auto intro: tracked_capture tracked_patch)
qed

lemma traverse_tracked:
  assumes "traverse c web scheds st = Some (Inr st')" and "tracked {#} st"
  shows "tracked {#} st'"
  using assms by (rule traverse_rule) (rule runBatch_tracked)

lemma tracked_distinct:
  assumes "tracked {#} s"
  shows "distinct (map cp_route (captured s))" and "set (map cp_route (captured s)) \<subseteq> set (visited s)"
proof -
  from assms have sub: "mset (map cp_route (captured s)) \<subseteq># mset (visited s)"
    and dist: "distinct (visited s)" by (simp_all add: tracked_def)
  from sub dist show "distinct (map cp_route (captured s))"
    by (rule distinct_submset)
  from sub show "set (map cp_route (captured s)) \<subseteq> set (visited s)"
    by (metis set_mset_mono set_mset_mset)
qed

lemma closeBundle_Wrote:
  assumes "closeBundle cmp opts web scheds = Some (Wrote st txt)"
  shows "traverse (mkEnv opts) web scheds (initialState opts) = Some (Inr st)"
    and "txt = llmsTxt cmp opts (captured st)" and "enabled opts"
  using assms by (auto simp: closeBundle_def split: if_splits option.splits sum.splits)

lemma tracked_initial: "tracked {#} (initialState opts)"
  by (simp add: tracked_def initialState_def)


subsection \<open>Captured pages are the visited routes that load\<close>

lemma accounted_capture:
  assumes "accounted web (add_mset (Capturing r d) M) s" and "captureOneFinish c web r s = Inr s'"
  shows "accounted web (add_mset (Patching d) M) s'"
proof -
  note fin = captureOneFinish_Inr [OF assms(2)]
  from fin(2) show ?thesis
  proof (elim disjE exE conjE)
    fix f assume "web r = Rendered (Failed f) True" "s' = s"
    with assms(1) show ?thesis by (simp add: accounted_def loads_def)
  next
    fix t hs assume "web r = Rendered (Loaded t hs) True"
      "captured s' = captured s @ [capturedPage c r t]"
    with assms(1) fin(1) show ?thesis by (simp add: accounted_def loads_def)
  qed
qed

lemma accounted_patch:
  "accounted web (add_mset (Patching d) M) s \<Longrightarrow> accounted web M (patchQueue c d s)"
  by (simp add: accounted_def)

lemma runBatch_accounted:
  assumes "runBatch c web sched st = Inr st'" and "accounted web {#} st"
  shows "accounted web {#} st'"
proof -
  from assms(1) obtain ms st1 where
    d: "dispatchAll c (map fixDepth (take (nat (concurrency c)) (queue st)))
          (st\<lparr>queue := drop (nat (concurrency c)) (queue st)\<rparr>) = (ms, st1)"
    and r: "runTasks c web sched (inFlight ms) (earlyPatches c ms st1) = Inr st'"
    by (rule runBatch_parts)
  from dispatchAll_props [OF d] assms(2)
  have "accounted web (mset (inFlight ms)) (earlyPatches c ms st1)"
    by (simp add: accounted_def)
  with r show ?thesis
    by (rule runTasks_rule) (auto intro: accounted_capture accounted_patch)
qed

lemma traverse_accounted:
  assumes "traverse c web scheds st = Some (Inr st')" and "accounted web {#} st"
  shows "accounted web {#} st'"
  using assms by (rule traverse_rule) (rule runBatch_accounted)

subsection \<open>No rejection\<close>

lemma captureOneFinish_caught:
  "web r = Rendered pg True \<Longrightarrow> \<exists>s'. captureOneFinish c web r s = Inr s'"
  by (simp add: captureOneFinish_def Let_def)

lemma stepTask_caught:
  assumes "\<forall>r. \<exists>pg. web r = Rendered pg True"
  shows "\<exists>t' s'. stepTask c web t s = Inr (t', s')"
proof (cases t)
  case (Capturing r d)
  from assms obtain pg where "web r = Rendered pg True" by blast
  then obtain s' where "captureOneFinish c web r s = Inr s'"
    using captureOneFinish_caught [of web r pg c s] by blast
  with Capturing show ?thesis by (simp add: stepTask_def)
next
  case (Patching d)
  then show ?thesis by (simp add: stepTask_def)
qed

lemma finishTasks_caught:
  assumes "\<forall>r. \<exists>pg. web r = Rendered pg True"
  shows "\<exists>s'. finishTasks c web ts s = Inr s'"
proof (induction ts arbitrary: s)
  case Nil
  then show ?case by simp
next
  case (Cons t ts)
  from stepTask_caught [OF assms, of c t s] obtain t1 s1 where
    1: "stepTask c web t s = Inr (t1, s1)" by blast
  show ?case
  proof (cases t1)
    case None
    with 1 Cons [of s1] show ?thesis by simp
  next
    case (Some t')
    from stepTask_caught [OF assms, of c t' s1] obtain t2 s2 where
      "stepTask c web t' s1 = Inr (t2, s2)" by blast
    with 1 Some Cons [of s2] show ?thesis by simp
  qed
qed

lemma runTasks_caught:
  assumes "\<forall>r. \<exists>pg. web r = Rendered pg True"
  shows "\<exists>s'. runTasks c web sched ts s = Inr s'"
proof (induction sched arbitrary: ts s)
  case Nil
  then show ?case using finishTasks_caught [OF assms] by simp
next
  case (Cons k ks)
  show ?case
  proof (cases "k < length ts")
    case False
    with Cons show ?thesis by simp
  next
    case True
    from stepTask_caught [OF assms, of c "ts ! k" s] obtain t1 s1 where
      1: "stepTask c web (ts ! k) s = Inr (t1, s1)" by blast
    with True Cons show ?thesis by (cases t1) simp_all
  qed
qed

lemma runBatch_caught:
  assumes "\<forall>r. \<exists>pg. web r = Rendered pg True"
  shows "\<exists>s'. runBatch c web sched s = Inr s'"
  using runTasks_caught [OF assms]
  by (simp add: runBatch_def Let_def split: prod.splits)

lemma traverse_caught:
  assumes "\<forall>r. \<exists>pg. web r = Rendered pg True"
  shows "traverse c web scheds s \<noteq> Some (Inl e)"
proof (induction scheds arbitrary: s)
  case Nil
  then show ?case by simp
next
  case (Cons sched scheds)
  from runBatch_caught [OF assms, of c sched s] obtain s1 where
    "runBatch c web sched s = Inr s1" by blast
  with Cons [of s1] show ?case by simp
qed

subsection \<open>Progress\<close>

lemma progressed_capture:
  assumes "progressed n q s" and "captureOneFinish c web r s = Inr s'"
  shows "progressed n q s'"
  using captureOneFinish_Inr(2) [OF assms(2)] assms(1)
  by (auto simp: progressed_def)

lemma runBatch_progress:
  assumes "runBatch c web sched st = Inr st'"
  shows "progressed (length (captured st)) (length (queue st) - nat (concurrency c)) st'"
proof -
  from assms(1) obtain ms st1 where
    d: "dispatchAll c (map fixDepth (take (nat (concurrency c)) (queue st)))
          (st\<lparr>queue := drop (nat (concurrency c)) (queue st)\<rparr>) = (ms, st1)"
    and r: "runTasks c web sched (inFlight ms) (earlyPatches c ms st1) = Inr st'"
    by (rule runBatch_parts)
  let ?Q = "\<lambda>(M :: task multiset) s.
              progressed (length (captured st)) (length (queue st) - nat (concurrency c)) s"
  from dispatchAll_props [OF d] have init: "?Q (mset (inFlight ms)) (earlyPatches c ms st1)"
    by (simp add: progressed_def)
  have cap: "?Q (add_mset (Patching d) M) s'"
    if "?Q (add_mset (Capturing r d) M) s" "captureOneFinish c web r s = Inr s'" for M r d s s'
    using that by (simp add: progressed_capture)
  have pat: "?Q M (patchQueue c d s)" if "?Q (add_mset (Patching d) M) s" for M d s
    using that by (simp add: progressed_def)
  from runTasks_rule [of c web sched "inFlight ms" "earlyPatches c ms st1" st' ?Q, OF r init cap pat]
  show ?thesis by simp
qed

lemma traverse_terminates:
  assumes "1 \<le> concurrency c" and "\<forall>r. \<exists>pg. web r = Rendered pg True"
  shows "\<exists>n st'. traverse c web (map \<sigma> [0..<n]) st = Some (Inr st')"
proof -
  let ?R = "measures [\<lambda>s. nat (maxPages c - int (length (captured s))), \<lambda>s. length (queue s)]"
  have "wf ?R" by simp
  then show ?thesis
  proof (induction st arbitrary: \<sigma> rule: wf_induct_rule)
    case (less st)
    show ?case
    proof (cases "queue st \<noteq> [] \<and> int (length (captured st)) < maxPages c")
      case False
      then have "traverse c web (map \<sigma> [0..<0]) st = Some (Inr st)" by auto
      then show ?thesis by blast
    next
      case True
      from runBatch_caught [OF assms(2), of c "\<sigma> 0" st] obtain s1 where
        s1: "runBatch c web (\<sigma> 0) st = Inr s1" by blast
      from runBatch_progress [OF s1] True assms(1) have "(s1, st) \<in> ?R"
        by (auto simp: progressed_def)
      from less.IH [OF this, of "\<lambda>i. \<sigma> (Suc i)"] obtain n st' where
        "traverse c web (map (\<lambda>i. \<sigma> (Suc i)) [0..<n]) s1 = Some (Inr st')" by blast
      with True s1 have "traverse c web (map \<sigma> [0..<Suc n]) st = Some (Inr st')"
        by (simp add: map_upt_Suc del: upt_Suc)
      then show ?thesis by blast
    qed
  qed
qed

lemma accounted_initial: "accounted web {#} (initialState opts)"
  by (simp add: accounted_def initialState_def)

lemma concurrency_mkEnv:
  "concurrency (mkEnv opts) = (if crawl_enabled opts then crawl_concurrency opts else 3)"
  by (simp add: mkEnv_def Let_def)


subsection \<open>Depths of harvested entries\<close>

lemma patchDepths_resolved:
  "\<forall>e\<in>set q. depth e \<noteq> - 1 \<Longrightarrow> patchDepths d q = q"
  by (induction q) (auto simp: patchDepths_def)

lemma patchDepths_append: "patchDepths d (q @ q') = patchDepths d q @ patchDepths d q'"
  by (simp add: patchDepths_def)

lemma patchDepths_cases:
  "e \<in> set (patchDepths d q) \<Longrightarrow> (e \<in> set q \<and> depth e \<noteq> - 1) \<or> depth e = d + 1"
  by (auto simp: patchDepths_def split: if_splits)

lemma captureOneFinish_queue:
  assumes "captureOneFinish c web r s = Inr s'"
  shows "\<exists>more. queue s' = queue s @ more \<and> (\<forall>e\<in>set more. depth e = - 1)"
proof (cases "web r")
  case SetupRejects
  with assms show ?thesis by (simp add: captureOneFinish_def)
next
  case (Rendered pg ok)
  show ?thesis
  proof (cases pg)
    case (Failed f)
    with Rendered assms have "queue s' = queue s"
      by (auto simp: captureOneFinish_def split: if_splits)
    then show ?thesis by (intro exI [of _ "[]"]) simp
  next
    case (Loaded t hs)
    let ?s1 = "s\<lparr>captured := captured s @ [capturedPage c r t]\<rparr>"
    show ?thesis
    proof (cases "crawl c")
      case True
      with Loaded Rendered assms have s': "s' = harvest c hs ?s1"
        by (auto simp: captureOneFinish_def split: if_splits)
      from harvest_queue [of c hs ?s1] obtain new where
        "queue (harvest c hs ?s1) = queue s @ new" "\<forall>e\<in>set new. depth e = - 1" by auto
      with s' show ?thesis by blast
    next
      case False
      with Loaded Rendered assms have "queue s' = queue s"
        by (auto simp: captureOneFinish_def split: if_splits)
      then show ?thesis by (intro exI [of _ "[]"]) simp
    qed
  qed
qed

lemma depthsPatched_capture:
  assumes "depthsPatched rest D (add_mset (Capturing r d) M) s"
    and "captureOneFinish c web r s = Inr s'"
  shows "depthsPatched rest D (add_mset (Patching d) M) s'"
proof -
  from assms(1) obtain new where new: "queue s = rest @ new"
    "\<forall>e\<in>set new. depth e = - 1 \<or> depth e - 1 \<in> D"
    "\<forall>t\<in>#add_mset (Capturing r d) M. taskDepth t \<in> D"
    unfolding depthsPatched_def by blast
  from captureOneFinish_queue [OF assms(2)] obtain more where
    more: "queue s' = queue s @ more" "\<forall>e\<in>set more. depth e = - 1" by blast
  show ?thesis unfolding depthsPatched_def
  proof (intro exI [of _ "new @ more"] conjI)
    show "queue s' = rest @ new @ more" using new(1) more(1) by simp
    show "\<forall>e\<in>set (new @ more). depth e = - 1 \<or> depth e - 1 \<in> D" using new(2) more(2) by auto
    show "(\<exists>e\<in>set (new @ more). depth e = - 1) \<longrightarrow> patching (add_mset (Patching d) M)"
      by (auto simp: patching_def)
    show "\<forall>t\<in>#add_mset (Patching d) M. taskDepth t \<in> D" using new(3) by auto
  qed
qed

lemma depthsPatched_patch:
  assumes "crawl c" and "\<forall>e\<in>set rest. depth e \<noteq> - 1" and "\<forall>d\<in>D. 0 \<le> d"
    and "depthsPatched rest D (add_mset (Patching d) M) s"
  shows "depthsPatched rest D M (patchQueue c d s)"
proof -
  from assms(4) obtain new where new: "queue s = rest @ new"
    "\<forall>e\<in>set new. depth e = - 1 \<or> depth e - 1 \<in> D"
    "\<forall>t\<in>#add_mset (Patching d) M. taskDepth t \<in> D"
    by (auto simp: depthsPatched_def)
  then have d: "d \<in> D" by simp
  with assms(3) have d0: "0 \<le> d" by blast
  from new(1) assms(1,2) have q: "queue (patchQueue c d s) = rest @ patchDepths d new"
    by (simp add: patchQueue_def patchDepths_append patchDepths_resolved)
  have 1: "depth e \<noteq> - 1 \<and> depth e - 1 \<in> D" if "e \<in> set (patchDepths d new)" for e
  proof -
    from patchDepths_cases [OF that] show ?thesis
    proof
      assume "e \<in> set new \<and> depth e \<noteq> - 1"
      with new(2) show ?thesis by blast
    next
      assume "depth e = d + 1"
      with d d0 show ?thesis by simp
    qed
  qed
  from new(3) have 2: "\<forall>t\<in>#M. taskDepth t \<in> D" by simp
  show ?thesis unfolding depthsPatched_def
  proof (intro exI [of _ "patchDepths d new"] conjI)
    show "queue (patchQueue c d s) = rest @ patchDepths d new" by (rule q)
    show "\<forall>e\<in>set (patchDepths d new). depth e = - 1 \<or> depth e - 1 \<in> D" using 1 by blast
    show "(\<exists>e\<in>set (patchDepths d new). depth e = - 1) \<longrightarrow> patching M" using 1 by blast
    show "\<forall>t\<in>#M. taskDepth t \<in> D" by (rule 2)
  qed
qed



lemma fixDepth_nonneg: "0 \<le> depth e \<Longrightarrow> fixDepth e = e"
  by (simp add: fixDepth_def)

lemma earlyPatches_resolved:
  "\<forall>e\<in>set (queue s). depth e \<noteq> - 1 \<Longrightarrow> queue (earlyPatches c ms s) = queue s"
  by (induction c ms s rule: earlyPatches.induct)
    (simp_all add: patchQueue_def patchDepths_resolved)

lemma runBatch_depths:
  assumes "crawl c" and "\<forall>e\<in>set (queue st). 0 \<le> depth e"
    and "runBatch c web sched st = Inr st'"
  shows "\<exists>new. queue st' = drop (nat (concurrency c)) (queue st) @ new
           \<and> (\<forall>e\<in>set new. \<exists>m\<in>set (take (nat (concurrency c)) (queue st)).
                  depth m \<le> maxDepth c \<and> depth e = depth m + 1)"
proof -
  let ?k = "nat (concurrency c)"
  let ?batch = "take ?k (queue st)" and ?rest = "drop ?k (queue st)"
  let ?D = "{d. \<exists>m\<in>set ?batch. d = depth m \<and> d \<le> maxDepth c}"
  have batch: "\<forall>e\<in>set ?batch. 0 \<le> depth e" and rest: "\<forall>e\<in>set ?rest. 0 \<le> depth e"
    using assms(2) by (auto dest: in_set_takeD in_set_dropD)
  then have fx: "map fixDepth ?batch = ?batch" by (simp add: map_idI fixDepth_nonneg)
  from rest have res: "\<forall>e\<in>set ?rest. depth e \<noteq> - 1" by fastforce
  from batch have D: "\<forall>d\<in>?D. 0 \<le> d" by auto
  from assms(3) obtain ms st1 where
    d: "dispatchAll c (map fixDepth ?batch) (st\<lparr>queue := ?rest\<rparr>) = (ms, st1)"
    and r: "runTasks c web sched (inFlight ms) (earlyPatches c ms st1) = Inr st'"
    by (rule runBatch_parts)
  note dp = dispatchAll_props [OF d]
  from dp have q1: "queue st1 = ?rest" by simp
  with res have q2: "queue (earlyPatches c ms st1) = ?rest" by (simp add: earlyPatches_resolved)
  from dp assms(1) fx have td: "\<forall>t\<in>set (inFlight ms). taskDepth t \<in> ?D" by fastforce
  have init: "depthsPatched ?rest ?D (mset (inFlight ms)) (earlyPatches c ms st1)"
    unfolding depthsPatched_def
  proof (intro exI [of _ "[]"] conjI)
    show "queue (earlyPatches c ms st1) = ?rest @ []" using q2 by simp
    show "\<forall>t\<in>#mset (inFlight ms). taskDepth t \<in> ?D" using td by simp
  qed simp_all
  have cap: "depthsPatched ?rest ?D (add_mset (Patching d) M) s'"
    if "depthsPatched ?rest ?D (add_mset (Capturing r d) M) s" "captureOneFinish c web r s = Inr s'"
    for M r d s s' using that by (rule depthsPatched_capture)
  have pat: "depthsPatched ?rest ?D M (patchQueue c d s)"
    if "depthsPatched ?rest ?D (add_mset (Patching d) M) s" for M d s
    using assms(1) res D that by (rule depthsPatched_patch)
  from runTasks_rule [of c web sched "inFlight ms" "earlyPatches c ms st1" st'
      "depthsPatched ?rest ?D", OF r init cap pat]
  have "depthsPatched ?rest ?D {#} st'" .
  then obtain new where new: "queue st' = ?rest @ new"
    "\<forall>e\<in>set new. depth e = - 1 \<or> depth e - 1 \<in> ?D"
    "(\<exists>e\<in>set new. depth e = - 1) \<longrightarrow> patching {#}"
    unfolding depthsPatched_def by (elim exE conjE)
  from new(3) have none: "\<forall>e\<in>set new. depth e \<noteq> - 1" by (auto simp: patching_def)
  have "\<exists>m\<in>set ?batch. depth m \<le> maxDepth c \<and> depth e = depth m + 1" if "e \<in> set new" for e
  proof -
    from that new(2) none have "depth e - 1 \<in> ?D" by blast
    then obtain m where "m \<in> set ?batch" "depth e - 1 = depth m" "depth e - 1 \<le> maxDepth c"
      by blast
    then show ?thesis by (intro bexI [of _ m]) auto
  qed
  with new(1) show ?thesis by (intro exI [of _ new]) simp
qed

subsection \<open>Exclusion by rules without flags\<close>

lemma isExcluded_unflagged:
  "unflagged ps \<Longrightarrow> isExcluded ps r = (excludedBy ps r, ps)"
proof (induction ps)
  case Nil
  then show ?case by (simp add: excludedBy_def)
next
  case (Cons p ps)
  then have ih: "isExcluded ps r = (excludedBy ps r, ps)" by (simp add: unflagged_def)
  show ?case
  proof (cases p)
    case (Str w)
    with ih show ?thesis by (simp add: excludedBy_def matchesRule_def)
  next
    case (RegExp flagged exec lastIndex)
    with Cons.prems have "\<not> flagged" by (simp add: unflagged_def)
    with RegExp ih show ?thesis
      by (auto simp: excludedBy_def matchesRule_def regexpTest_def split: option.splits)
  qed
qed

lemma harvest_rules_unflagged: "unflagged (rules st) \<Longrightarrow> rules (harvest c hs st) = rules st"
  by (induction hs arbitrary: st)
    (auto simp: Let_def isExcluded_unflagged split: option.splits)

lemma captureOneFinish_rules_unflagged:
  assumes "captureOneFinish c web r s = Inr s'" and "unflagged (rules s)"
  shows "rules s' = rules s"
  using captureOneFinish_Inr(2) [OF assms(1)] assms(2)
  by (auto simp: harvest_rules_unflagged split: if_splits)

lemma captureOneStart_unflagged:
  assumes "captureOneStart c r st = (going, st')" and "unflagged (rules st)"
  shows "rules st' = rules st" and "going \<Longrightarrow> \<not> excludedBy (rules st) r"
  using assms
  by (auto simp: captureOneStart_def isExcluded_unflagged Let_def split: if_splits)

lemma dispatchMember_unflagged:
  assumes "dispatchMember c e st = (m, st')" and "unflagged (rules st)"
  shows "rules st' = rules st"
    and "\<And>r d. m = InFlight r d \<Longrightarrow> \<not> excludedBy (rules st) r"
  using assms captureOneStart_unflagged [of c "route e" st]
  by (auto simp: dispatchMember_def Let_def split: if_splits prod.splits)

lemma dispatchAll_unflagged:
  assumes "dispatchAll c es st = (ms, st')" and "unflagged (rules st)"
  shows "rules st' = rules st \<and> (\<forall>r\<in>#capturing (mset (inFlight ms)). \<not> excludedBy (rules st) r)"
  using assms
proof (induction es arbitrary: st ms st')
  case Nil
  then show ?case by simp
next
  case (Cons e es)
  from Cons.prems(1) obtain m st1 ms' where
    m: "dispatchMember c e st = (m, st1)" and rest: "dispatchAll c es st1 = (ms', st')"
    and ms: "ms = m # ms'" by (rule dispatchAll_Cons)
  note dm = dispatchMember_unflagged [OF m Cons.prems(2)]
  from Cons.IH [OF rest] dm(1) Cons.prems(2)
  have ih: "rules st' = rules st"
    "\<forall>r\<in>#capturing (mset (inFlight ms')). \<not> excludedBy (rules st) r" by simp_all
  show ?case
  proof (cases m)
    case (InFlight r d)
    with dm(2) ih ms show ?thesis by simp
  qed (use ih ms in simp_all)
qed

lemma earlyPatches_rules [simp]: "rules (earlyPatches c ms st) = rules st"
  by (induction c ms st rule: earlyPatches.induct) (simp_all add: patchQueue_def)

lemma runBatch_filtered:
  assumes "unflagged ps" and "runBatch c web sched st = Inr st'" and "filtered ps {#} st"
  shows "filtered ps {#} st'"
proof -
  from assms(2) obtain ms st1 where
    d: "dispatchAll c (map fixDepth (take (nat (concurrency c)) (queue st)))
          (st\<lparr>queue := drop (nat (concurrency c)) (queue st)\<rparr>) = (ms, st1)"
    and r: "runTasks c web sched (inFlight ms) (earlyPatches c ms st1) = Inr st'"
    by (rule runBatch_parts)
  from assms(1,3) have u: "unflagged (rules (st\<lparr>queue := drop (nat (concurrency c)) (queue st)\<rparr>))"
    by (simp add: filtered_def)
  from dispatchAll_unflagged [OF d u] dispatchAll_props [OF d] assms(3)
  have init: "filtered ps (mset (inFlight ms)) (earlyPatches c ms st1)"
    by (auto simp: filtered_def)
  have cap: "filtered ps (add_mset (Patching d) M) s'"
    if "filtered ps (add_mset (Capturing r d) M) s" "captureOneFinish c web r s = Inr s'"
    for M r d s s'
  proof -
    from that(1) assms(1) have "unflagged (rules s)" by (simp add: filtered_def)
    from captureOneFinish_rules_unflagged [OF that(2) this] that(1)
    have "rules s' = ps" by (simp add: filtered_def)
    moreover from captureOneFinish_Inr(2) [OF that(2)]
    have "set (map cp_route (captured s')) \<subseteq> insert r (set (map cp_route (captured s)))"
      by (auto split: if_splits)
    ultimately show ?thesis using that(1) by (auto simp: filtered_def)
  qed
  have pat: "filtered ps M (patchQueue c d s)" if "filtered ps (add_mset (Patching d) M) s"
    for M d s using that by (simp add: filtered_def patchQueue_def)
  from runTasks_rule [of c web sched "inFlight ms" "earlyPatches c ms st1" st' "filtered ps",
      OF r init cap pat]
  show ?thesis .
qed

subsection \<open>The number of captured pages\<close>

lemma captureOneFinish_length:
  assumes "captureOneFinish c web r s = Inr s'"
  shows "length (captured s') \<le> Suc (length (captured s))"
  using captureOneFinish_Inr(2) [OF assms] by auto

lemma size_capturing_inFlight: "size (capturing (mset (inFlight ms))) \<le> length ms"
  by (induction ms rule: inFlight.induct) simp_all

lemma dispatchAll_length: "dispatchAll c es st = (ms, st') \<Longrightarrow> length ms = length es"
proof (induction es arbitrary: st ms st')
  case Nil
  then show ?case by simp
next
  case (Cons e es)
  from Cons.prems obtain m st1 ms' where
    "dispatchAll c es st1 = (ms', st')" "ms = m # ms'" by (rule dispatchAll_Cons)
  with Cons.IH show ?case by simp
qed

lemma runBatch_within:
  assumes "runBatch c web sched st = Inr st'"
  shows "length (captured st') \<le> length (captured st) + nat (concurrency c)"
proof -
  from assms(1) obtain ms st1 where
    d: "dispatchAll c (map fixDepth (take (nat (concurrency c)) (queue st)))
          (st\<lparr>queue := drop (nat (concurrency c)) (queue st)\<rparr>) = (ms, st1)"
    and r: "runTasks c web sched (inFlight ms) (earlyPatches c ms st1) = Inr st'"
    by (rule runBatch_parts)
  let ?b = "length (captured st) + nat (concurrency c)"
  from dispatchAll_length [OF d] have "length ms \<le> nat (concurrency c)" by simp
  with size_capturing_inFlight [of ms] dispatchAll_props [OF d]
  have init: "within ?b (mset (inFlight ms)) (earlyPatches c ms st1)"
    by (simp add: within_def)
  have cap: "within ?b (add_mset (Patching d) M) s'"
    if "within ?b (add_mset (Capturing r d) M) s" "captureOneFinish c web r s = Inr s'"
    for M r d s s'
    using that(1) captureOneFinish_length [OF that(2)] by (simp add: within_def)
  have pat: "within ?b M (patchQueue c d s)" if "within ?b (add_mset (Patching d) M) s"
    for M d s using that by (simp add: within_def)
  from runTasks_rule [of c web sched "inFlight ms" "earlyPatches c ms st1" st' "within ?b",
      OF r init cap pat]
  show ?thesis by (simp add: within_def)
qed

lemma earlyPatches_no_crawl: "\<not> crawl c \<Longrightarrow> earlyPatches c ms s = s"
  by (induction c ms s rule: earlyPatches.induct) (simp_all add: patchQueue_def)

lemma captureOneFinish_no_crawl:
  assumes "\<not> crawl c" and "captureOneFinish c web r s = Inr s'"
  shows "queue s' = queue s"
  using assms
  by (auto simp: captureOneFinish_def split: rendering.splits page.splits if_splits)

lemma runBatch_explicit:
  assumes "\<not> crawl c" and "runBatch c web sched st = Inr st'"
  shows "length (visited st') + length (queue st') \<le> length (visited st) + length (queue st)"
proof -
  from assms(2) obtain ms st1 where
    d: "dispatchAll c (map fixDepth (take (nat (concurrency c)) (queue st)))
          (st\<lparr>queue := drop (nat (concurrency c)) (queue st)\<rparr>) = (ms, st1)"
    and r: "runTasks c web sched (inFlight ms) (earlyPatches c ms st1) = Inr st'"
    by (rule runBatch_parts)
  let ?Q = "\<lambda>(M :: task multiset) (s :: state). visited s = visited st1 \<and> queue s = queue st1"
  have init: "?Q (mset (inFlight ms)) (earlyPatches c ms st1)"
    using assms(1) by (simp add: earlyPatches_no_crawl)
  from r init have "?Q {#} st'"
  proof (rule runTasks_rule [where Q = ?Q])
    fix M r d s s'
    assume "?Q (add_mset (Capturing r d) M) s" and f: "captureOneFinish c web r s = Inr s'"
    with captureOneFinish_Inr(1) [OF f] captureOneFinish_no_crawl [OF assms(1) f]
    show "?Q (add_mset (Patching d) M) s'" by simp
  next
    fix M d s
    assume "?Q (add_mset (Patching d) M) s"
    with assms(1) show "?Q M (patchQueue c d s)" by (simp add: patchQueue_def)
  qed
  then have fin: "visited st' = visited st1" "queue st' = queue st1" by simp_all
  note dp = dispatchAll_props [OF d]
  from dp have "mset (visited st1) = mset (visited st) + capturing (mset (inFlight ms))"
    by simp
  then have "size (mset (visited st1)) = size (mset (visited st) + capturing (mset (inFlight ms)))"
    by (rule arg_cong)
  then have "length (visited st1) = length (visited st) + size (capturing (mset (inFlight ms)))"
    by simp
  then have v: "length (visited st1) \<le> length (visited st) + length ms"
    using size_capturing_inFlight [of ms] by linarith
  from dispatchAll_length [OF d] have l: "length ms = min (length (queue st)) (nat (concurrency c))"
    by simp
  from dp have q: "queue st1 = drop (nat (concurrency c)) (queue st)" by simp
  from v l q fin show ?thesis by simp
qed

section \<open>Properties of the index\<close>

lemma ordersRoutes_props:
  assumes "ordersRoutes cmp rs" and "a \<in> set rs" and "b \<in> set rs"
  shows "(cmp a b = 0) = (a = b)" and "(cmp a b < 0) = (0 < cmp b a)"
    and "c \<in> set rs \<Longrightarrow> cmp a b < 0 \<Longrightarrow> cmp b c < 0 \<Longrightarrow> cmp a c < 0"
  using assms unfolding ordersRoutes_def list_all_iff by blast+

lemma mset_insertItem [simp]: "mset (insertItem cmp x ys) = add_mset x (mset ys)"
  by (induction ys) auto

lemma set_insertItem [simp]: "set (insertItem cmp x ys) = insert x (set ys)"
  by (induction ys) auto

lemma mset_foldl_insertItem:
  "mset (foldl (\<lambda>acc x. insertItem cmp x acc) acc xs) = mset acc + mset xs"
  by (induction xs arbitrary: acc) auto

lemma mset_sortItems [simp]: "mset (sortItems cmp xs) = mset xs"
  by (simp add: sortItems_def mset_foldl_insertItem)

lemma sorted_insertItem:
  assumes ord: "ordersRoutes cmp rs" and x: "cp_route x \<in> set rs"
    and ys: "cp_route ` set ys \<subseteq> set rs" and "sorted_wrt (before cmp) ys"
    and "cp_route x \<notin> cp_route ` set ys"
  shows "sorted_wrt (before cmp) (insertItem cmp x ys)"
  using assms(3-)
proof (induction ys)
  case Nil
  then show ?case by simp
next
  case (Cons y ys)
  from Cons.prems have y: "cp_route y \<in> set rs" and ne: "cp_route x \<noteq> cp_route y" by auto
  show ?case
  proof (cases "before cmp x y")
    case True
    have "before cmp x z" if "z \<in> set ys" for z
    proof -
      from that Cons.prems have "before cmp y z" "cp_route z \<in> set rs" by auto
      with True show ?thesis using ordersRoutes_props(3) [OF ord x y] by blast
    qed
    with True Cons.prems show ?thesis by auto
  next
    case False
    from ordersRoutes_props(1) [OF ord x y] ne have "cmp (cp_route x) (cp_route y) \<noteq> 0" by simp
    with False have "0 < cmp (cp_route x) (cp_route y)" by simp
    with ordersRoutes_props(2) [OF ord y x] have "before cmp y x" by simp
    moreover from Cons have "sorted_wrt (before cmp) (insertItem cmp x ys)" by auto
    ultimately show ?thesis using False Cons.prems by auto
  qed
qed

lemma sorted_foldl_insertItem:
  assumes ord: "ordersRoutes cmp rs"
  shows "sorted_wrt (before cmp) acc \<Longrightarrow> distinct (map cp_route (acc @ xs))
     \<Longrightarrow> cp_route ` set (acc @ xs) \<subseteq> set rs
     \<Longrightarrow> sorted_wrt (before cmp) (foldl (\<lambda>acc x. insertItem cmp x acc) acc xs)"
proof (induction xs arbitrary: acc)
  case Nil
  then show ?case by simp
next
  case (Cons x xs)
  from Cons.prems have "sorted_wrt (before cmp) (insertItem cmp x acc)"
    by (intro sorted_insertItem [OF ord]) auto
  moreover from Cons.prems have "distinct (map cp_route (insertItem cmp x acc @ xs))"
  proof -
    have "mset (map cp_route (insertItem cmp x acc @ xs)) = mset (map cp_route (acc @ x # xs))"
      by simp
    with Cons.prems(2) show ?thesis by (metis mset_eq_imp_distinct_iff)
  qed
  moreover from Cons.prems have "cp_route ` set (insertItem cmp x acc @ xs) \<subseteq> set rs" by auto
  ultimately show ?case using Cons.IH [of "insertItem cmp x acc"] by simp
qed

lemma sorted_sortItems:
  assumes "ordersRoutes cmp rs" and "distinct (map cp_route xs)" and "cp_route ` set xs \<subseteq> set rs"
  shows "sorted_wrt (before cmp) (sortItems cmp xs)"
  unfolding sortItems_def using assms by (intro sorted_foldl_insertItem [OF assms(1)]) auto

lemma sorted_unique:
  assumes ord: "ordersRoutes cmp rs"
  shows "sorted_wrt (before cmp) xs \<Longrightarrow> sorted_wrt (before cmp) ys \<Longrightarrow> mset xs = mset ys
     \<Longrightarrow> cp_route ` set xs \<subseteq> set rs \<Longrightarrow> xs = ys"
proof (induction xs arbitrary: ys)
  case Nil
  then show ?case by simp
next
  case (Cons x xs)
  from Cons.prems(3) obtain y ys' where ys: "ys = y # ys'" by (cases ys) auto
  have sets: "set (x # xs) = set (y # ys')" using Cons.prems(3) ys by (metis mset_eq_setD)
  have irrefl: "\<not> before cmp z z" if "cp_route z \<in> set rs" for z
    using ordersRoutes_props(1) [OF ord that that] by simp
  have asym: "\<not> before cmp w z" if "before cmp z w" "cp_route z \<in> set rs" "cp_route w \<in> set rs" for z w
    using ordersRoutes_props(2) [OF ord that(2,3)] ordersRoutes_props(2) [OF ord that(3,2)] that(1)
    by simp
  have rs: "cp_route z \<in> set rs" if "z \<in> set (x # xs)" for z using that Cons.prems(4) by auto
  have xy: "x = y"
  proof (rule ccontr)
    assume "x \<noteq> y"
    with sets have "x \<in> set ys'" "y \<in> set xs" by auto
    with Cons.prems(1,2) ys have "before cmp y x" "before cmp x y" by auto
    with asym [of x y] rs sets show False by auto
  qed
  with Cons.prems(3) ys have "mset xs = mset ys'" by simp
  with Cons.prems ys xy have "xs = ys'" by (intro Cons.IH) auto
  with xy ys show ?case by simp
qed

lemma sortItems_permuted:
  assumes "ordersRoutes cmp (map cp_route xs)" and "distinct (map cp_route xs)"
    and "mset xs = mset ys"
  shows "sortItems cmp xs = sortItems cmp ys"
proof -
  from assms(3) have s: "set ys = set xs" by (metis mset_eq_setD)
  from assms(3) have "mset (map cp_route ys) = mset (map cp_route xs)" by simp
  with assms(2) have d: "distinct (map cp_route ys)" by (metis mset_eq_imp_distinct_iff)
  have "sorted_wrt (before cmp) (sortItems cmp xs)"
    using assms(1,2) by (rule sorted_sortItems) simp
  moreover have "sorted_wrt (before cmp) (sortItems cmp ys)"
    using assms(1) d by (rule sorted_sortItems) (simp add: s)
  moreover have "mset (sortItems cmp xs) = mset (sortItems cmp ys)" using assms(3) by simp
  moreover have "cp_route ` set (sortItems cmp xs) \<subseteq> set (map cp_route xs)"
    by (metis mset_sortItems mset_eq_setD set_map subset_refl)
  ultimately show ?thesis by (rule sorted_unique [OF assms(1)])
qed

section \<open>The claims about a run\<close>

text \<open>
  C1. The page cap is exceeded by a concurrent batch. Every member of a batch passes
  the guard \<open>captured.length >= maxPages\<close> when it is dispatched, before any capture
  of the batch has finished: with a cap of one page, two seeds and two captures at a
  time, two pages are captured.
\<close>

theorem page_cap_exceeded:
  "crawl_maxPages (cappedCrawl 2) = 1
   \<and> routesWritten (closeBundle codeCompare (cappedCrawl 2) homeAndA [[]]) = Some [''/'', ''/a'']"
  by code_simp

text \<open>
  The excess is less than one batch: a run ends with at most \<open>maxPages - 1\<close> pages
  plus one batch of captures, so one capture at a time keeps the cap. In explicit
  mode, where the cap is the number of declared routes, it is never exceeded.
\<close>

lemma page_cap_overshoot_bounded:
  assumes "closeBundle cmp opts web scheds = Some (Wrote st doc)"
  shows "int (length (captured st))
           \<le> max 0 (maxPages (mkEnv opts) - 1 + int (nat (concurrency (mkEnv opts))))"
proof -
  let ?c = "mkEnv opts"
  define k where "k = nat (concurrency ?c)"
  let ?Inv = "\<lambda>s. int (length (captured s)) \<le> max 0 (maxPages ?c - 1 + int k)"
  from closeBundle_Wrote(1) [OF assms]
  have t: "traverse ?c web scheds (initialState opts) = Some (Inr st)" .
  have i: "?Inv (initialState opts)" by (simp add: initialState_def)
  have b: "\<And>s sched s'. ?Inv s \<Longrightarrow> queue s \<noteq> [] \<Longrightarrow> int (length (captured s)) < maxPages ?c
             \<Longrightarrow> runBatch ?c web sched s = Inr s' \<Longrightarrow> ?Inv s'"
  proof -
    fix s sched s'
    assume "int (length (captured s)) < maxPages ?c" and "runBatch ?c web sched s = Inr s'"
    from runBatch_within [OF this(2)] have "length (captured s') \<le> length (captured s) + k"
      by (simp add: k_def)
    with \<open>int (length (captured s)) < maxPages ?c\<close> show "?Inv s'" by linarith
  qed
  from t i have "?Inv st" by (rule traverse_rule [where Inv = ?Inv]) (rule b)
  then show ?thesis by (simp only: k_def)
qed

lemma explicit_mode_within_cap:
  assumes "\<not> crawl_enabled opts" and "closeBundle cmp opts web scheds = Some (Wrote st doc)"
  shows "int (length (captured st)) \<le> maxPages (mkEnv opts)"
proof -
  let ?c = "mkEnv opts"
  let ?n = "length (queue (initialState opts))"
  let ?Inv = "\<lambda>s. length (visited s) + length (queue s) \<le> ?n"
  from closeBundle_Wrote(1) [OF assms(2)]
  have t: "traverse ?c web scheds (initialState opts) = Some (Inr st)" .
  from assms(1) have c: "\<not> crawl ?c" and m: "maxPages ?c = int ?n"
    by (simp_all add: mkEnv_def Let_def initialState_def)
  have i: "?Inv (initialState opts)" by (simp add: initialState_def)
  have b: "\<And>s sched s'. ?Inv s \<Longrightarrow> queue s \<noteq> [] \<Longrightarrow> int (length (captured s)) < maxPages ?c
             \<Longrightarrow> runBatch ?c web sched s = Inr s' \<Longrightarrow> ?Inv s'"
  proof -
    fix s sched s'
    assume "?Inv s" and "runBatch ?c web sched s = Inr s'"
    from runBatch_explicit [OF c this(2)] this(1) show "?Inv s'" by linarith
  qed
  from t i have "?Inv st" by (rule traverse_rule [where Inv = ?Inv]) (rule b)
  then have "length (visited st) \<le> ?n" by linarith
  moreover from traverse_tracked [OF t tracked_initial]
  have "mset (map cp_route (captured st)) \<subseteq># mset (visited st)" by (simp add: tracked_def)
  from size_mset_mono [OF this] have "length (captured st) \<le> length (visited st)"
    by simp
  ultimately show ?thesis using m by simp
qed

text \<open>
  C2. A pattern with the \<open>g\<close> flag does not exclude every route it matches. The test
  of \<open>/admin/a\<close> leaves \<open>lastIndex\<close> at 6; the test of \<open>/admin/b\<close> starts there,
  finds nothing, and the route is captured, although the pattern matches it.
\<close>

theorem flagged_pattern_lets_route_through:
  "execWord ''admin'' ''/admin/b'' 0 = Some 6
   \<and> routesWritten (closeBundle codeCompare adminPattern adminPages [[]]) = Some [''/admin/b'']"
  by code_simp

text \<open>
  With string rules and patterns that carry neither flag, exclusion is complete: no
  captured page has a route that a rule matches, whether the route was declared, a
  seed or a harvested link.
\<close>

lemma unflagged_rules_exclude_completely:
  assumes "unflagged (exclude opts)" and "closeBundle cmp opts web scheds = Some (Wrote st doc)"
    and "excludedBy (exclude opts) r"
  shows "r \<notin> set (map cp_route (captured st))"
proof -
  from closeBundle_Wrote(1) [OF assms(2)]
  have t: "traverse (mkEnv opts) web scheds (initialState opts) = Some (Inr st)" .
  have "filtered (exclude opts) {#} (initialState opts)"
    by (simp add: filtered_def initialState_def)
  with t have "filtered (exclude opts) {#} st"
    by (rule traverse_rule) (rule runBatch_filtered [OF assms(1)])
  with assms(3) show ?thesis by (auto simp: filtered_def)
qed

lemma staticSite_recoverable: "\<forall>r. \<exists>pg. staticSite pages r = Rendered pg True"
  by (simp add: staticSite_def split: option.splits)

text \<open>
  C3. A failure of the page's work is caught by the \<open>catch\<close> block of \<open>captureOne\<close>, but
  the \<open>page.close()\<close> of its \<open>finally\<close> block is not guarded. Of three declared routes,
  the page of \<open>/b\<close> has crashed: its navigation fails, which is caught, and its close
  rejects, which is not. The rejection leaves \<open>captureOne\<close> and the batch, the run
  throws, and no index is written, although \<open>/a\<close> and \<open>/c\<close> load.
\<close>

theorem close_rejection_aborts_run:
  "map rd_path (routes threeRoutes) = [''/a'', ''/b'', ''/c'']
   \<and> crashedPage ''/b'' = Rendered (Failed Navigation) False
   \<and> thrown (closeBundle codeCompare threeRoutes crashedPage [[]]) = Some (Rejected ''/b'')
   \<and> indexWritten (closeBundle codeCompare threeRoutes crashedPage [[]]) = None"
  by code_simp

text \<open>So does a rejection of \<open>browser.newPage()\<close>, which runs before the \<open>try\<close> block.\<close>

lemma setup_rejection_escapes:
  "thrown (closeBundle codeCompare threeRoutes (twoPages(''/b'' := SetupRejects)) [[]])
     = Some (Rejected ''/b'')"
  by code_simp

text \<open>
  What the \<open>catch\<close> block gives. A capture that fails at a step inside the \<open>try\<close> block
  (a hook, navigation, the selector wait, extraction, conversion, the file write)
  and whose page closes leaves \<open>captured\<close> and the queue as they were. When every page
  opens and closes (and, in crawl mode, at least one capture runs at a time, without
  which no capture runs at all), no run throws, every run completes under every order
  of completion \<open>\<sigma>\<close>, and the captured pages are exactly the visited routes whose
  page loaded.
\<close>

lemma caught_failures_are_isolated:
  assumes "enabled opts" and "crawl_enabled opts \<longrightarrow> 1 \<le> crawl_concurrency opts"
    and "\<forall>r. \<exists>pg. web r = Rendered pg True"
  shows "(web r = Rendered (Failed f) True \<longrightarrow> captureOneFinish c web r s = Inr s)
    \<and> (\<forall>scheds e. closeBundle cmp opts web scheds \<noteq> Some (Threw e))
    \<and> (\<exists>n st. closeBundle cmp opts web (map \<sigma> [0..<n])
                  = Some (Wrote st (llmsTxt cmp opts (captured st)))
          \<and> mset (map cp_route (captured st)) = filter_mset (loads web) (mset (visited st)))"
proof (intro conjI)
  show "web r = Rendered (Failed f) True \<longrightarrow> captureOneFinish c web r s = Inr s"
    by (simp add: captureOneFinish_def)
  show "\<forall>scheds e. closeBundle cmp opts web scheds \<noteq> Some (Threw e)"
    using traverse_caught [OF assms(3), of "mkEnv opts"]
    by (auto simp: closeBundle_def split: option.splits sum.splits)
  have "1 \<le> concurrency (mkEnv opts)" using assms(2) by (simp add: concurrency_mkEnv)
  from traverse_terminates [OF this assms(3), of \<sigma> "initialState opts"] obtain n st where
    t: "traverse (mkEnv opts) web (map \<sigma> [0..<n]) (initialState opts) = Some (Inr st)" by blast
  from traverse_accounted [OF t accounted_initial]
  have "mset (map cp_route (captured st)) = filter_mset (loads web) (mset (visited st))"
    by (simp add: accounted_def)
  moreover from t assms(1)
  have "closeBundle cmp opts web (map \<sigma> [0..<n]) = Some (Wrote st (llmsTxt cmp opts (captured st)))"
    by (simp add: closeBundle_def)
  ultimately show "\<exists>n st. closeBundle cmp opts web (map \<sigma> [0..<n])
                  = Some (Wrote st (llmsTxt cmp opts (captured st)))
          \<and> mset (map cp_route (captured st)) = filter_mset (loads web) (mset (visited st))"
    by blast
qed

text \<open>Three declared routes, one of which fails at navigation and closes its page.\<close>

lemma caught_failures_are_isolated_example:
  "enabled threeRoutes \<and> \<not> crawl_enabled threeRoutes
   \<and> (\<forall>r. \<exists>pg. twoPages r = Rendered pg True)
   \<and> twoPages ''/b'' = Rendered (Failed Navigation) True
   \<and> captureOneFinish (mkEnv threeRoutes) twoPages ''/b'' (initialState threeRoutes)
       = Inr (initialState threeRoutes)
   \<and> (\<forall>scheds e. closeBundle codeCompare threeRoutes twoPages scheds \<noteq> Some (Threw e))
   \<and> (\<exists>n st. closeBundle codeCompare threeRoutes twoPages (map (\<lambda>i. []) [0..<n])
                  = Some (Wrote st (llmsTxt codeCompare threeRoutes (captured st)))
          \<and> mset (map cp_route (captured st)) = filter_mset (loads twoPages) (mset (visited st)))
   \<and> routesWritten (closeBundle codeCompare threeRoutes twoPages [[]]) = Some [''/a'', ''/c'']"
proof -
  have e: "enabled threeRoutes" and c: "\<not> crawl_enabled threeRoutes"
    by (simp_all add: threeRoutes_def plainOptions_def)
  have r: "\<forall>r. \<exists>pg. twoPages r = Rendered pg True"
    unfolding twoPages_def by (rule staticSite_recoverable)
  have b: "twoPages ''/b'' = Rendered (Failed Navigation) True"
    by (simp add: twoPages_def staticSite_def)
  have w: "routesWritten (closeBundle codeCompare threeRoutes twoPages [[]]) = Some [''/a'', ''/c'']"
    by code_simp
  from c have c': "crawl_enabled threeRoutes \<longrightarrow> 1 \<le> crawl_concurrency threeRoutes" by simp
  from caught_failures_are_isolated [OF e c' r, of "''/b''" Navigation "mkEnv threeRoutes"
      "initialState threeRoutes" codeCompare "\<lambda>i. []"] e c r b w
  show ?thesis by simp
qed

text \<open>
  In that run the two other routes are captured, and the index lists exactly these
  two.
\<close>

lemma two_of_three_indexed:
  "twoPages ''/b'' = Rendered (Failed Navigation) True
   \<and> routesWritten (closeBundle codeCompare threeRoutes twoPages [[]]) = Some [''/a'', ''/c'']
   \<and> indexWritten (closeBundle codeCompare threeRoutes twoPages [[]])
       = Some (''# Site'' @ [CHR 0x0A, CHR 0x0A]
               @ ''> LLM-friendly index of important pages and their Markdown equivalents.''
               @ [CHR 0x0A, CHR 0x0A]
               @ ''## Pages'' @ [CHR 0x0A, CHR 0x0A]
               @ ''- [/a](a.md)'' @ [CHR 0x0A]
               @ ''- [/c](c.md)'' @ [CHR 0x0A]
               @ [CHR 0x0A])"
  by code_simp

lemma routesWritten_Some:
  assumes "routesWritten out = Some rs"
  obtains st doc where "out = Some (Wrote st doc)" and "map cp_route (captured st) = rs"
  using assms by (auto simp: routesWritten_def split: option.splits outcome.splits)

text \<open>
  C4. No route key appears twice among the captured pages of a run. A route is added
  to \<open>visited\<close> once, by the first part of its capture, before the page work starts; a
  route already in \<open>visited\<close> stops at the first guard, so duplicate queue entries are
  not captured again.
\<close>

theorem no_duplicate_captures:
  assumes "closeBundle cmp opts web scheds = Some (Wrote st txt)"
  shows "distinct (map cp_route (captured st)) \<and> distinct (visited st)
         \<and> set (map cp_route (captured st)) \<subseteq> set (visited st)
         \<and> (r \<in> set (visited s) \<longrightarrow> captureOneStart c r s = (False, s))
         \<and> (captureOneStart c r s = (True, s') \<longrightarrow> r \<notin> set (visited s) \<and> visited s' = visited s @ [r])"
proof -
  from assms have "traverse (mkEnv opts) web scheds (initialState opts) = Some (Inr st)"
    by (rule closeBundle_Wrote)
  then have t: "tracked {#} st" using tracked_initial by (rule traverse_tracked)
  from tracked_distinct [OF t] t show ?thesis
    by (auto simp: tracked_def captureOneStart_visited dest: captureOneStart_True)
qed

text \<open>The route \<open>/a\<close> is queued twice and captured once.\<close>

theorem no_duplicate_captures_witness:
  "\<exists>st txt. closeBundle codeCompare sameRouteTwice (staticSite [(''/a'', []), (''/b'', [])]) [[]]
              = Some (Wrote st txt)
     \<and> map route (queue (initialState sameRouteTwice)) = [''/a'', ''/a'', ''/b'']
     \<and> map cp_route (captured st) = [''/a'', ''/b'']
     \<and> distinct (map cp_route (captured st)) \<and> distinct (visited st)"
proof -
  let ?out = "closeBundle codeCompare sameRouteTwice (staticSite [(''/a'', []), (''/b'', [])]) [[]]"
  have "routesWritten ?out = Some [''/a'', ''/b'']" by code_simp
  then obtain st doc where out: "?out = Some (Wrote st doc)"
    and rs: "map cp_route (captured st) = [''/a'', ''/b'']" by (rule routesWritten_Some)
  have q: "map route (queue (initialState sameRouteTwice)) = [''/a'', ''/a'', ''/b'']"
    by code_simp
  have d: "distinct (map cp_route (captured st))" "distinct (visited st)"
    using no_duplicate_captures [OF out, THEN conjunct1]
      no_duplicate_captures [OF out, THEN conjunct2, THEN conjunct1] .
  from out q rs d show ?thesis by (intro exI [of _ st] exI [of _ doc] conjI)
qed

text \<open>
  C7. A harvested entry is not always given the depth of the route that discovered it
  plus one. The patch loop of a batch member rewrites every unresolved entry of the
  queue with that member's depth. In the second batch below, \<open>/s3\<close> (depth 0) and \<open>/a\<close>
  (depth 1) are captured together, and both captures finish before \<open>/s3\<close> runs its
  patch loop: the link \<open>/y\<close> found on \<open>/a\<close> gets depth 1, not 2.
\<close>

theorem patch_by_other_member:
  "mixedSite ''/a'' = Rendered (Loaded [] [''/y'']) True
   \<and> secondBatch [0, 1, 0]
       = ([\<lparr>route = ''/s3'', depth = 0\<rparr>, \<lparr>route = ''/a'', depth = 1\<rparr>],
          [\<lparr>route = ''/x'', depth = 1\<rparr>, \<lparr>route = ''/y'', depth = 1\<rparr>])"
  by code_simp

text \<open>When each member patches right after its own capture, \<open>/y\<close> gets depth 2.\<close>

lemma patch_in_order:
  "secondBatch []
     = ([\<lparr>route = ''/s3'', depth = 0\<rparr>, \<lparr>route = ''/a'', depth = 1\<rparr>],
        [\<lparr>route = ''/x'', depth = 1\<rparr>, \<lparr>route = ''/y'', depth = 2\<rparr>])"
  by code_simp

text \<open>
  The depth limit then depends on the order in which captures complete. Under a limit
  of one link, one capture at a time stops before \<open>/y\<close> (two links from a seed); two at
  a time, in the order above, capture it.
\<close>

lemma depth_limited_crawl_depends_on_timing:
  "routesWritten (closeBundle codeCompare (shallowCrawl 1) mixedSite [[], [], [], [], [], []])
     = Some [''/s1'', ''/s2'', ''/s3'', ''/a'', ''/x'']
   \<and> routesWritten (closeBundle codeCompare (shallowCrawl 2) mixedSite [[], [0, 1, 0], []])
     = Some [''/s1'', ''/s2'', ''/s3'', ''/a'', ''/x'', ''/y'']"
  by code_simp

text \<open>
  What every batch gives. A harvested entry enters the queue with the unresolved depth
  \<open>-1\<close>; by the end of the batch it has the depth of a member of that batch plus one (a
  member within the depth limit), which is at least 1, and no unresolved entry is left
  in the queue.
\<close>

lemma harvested_depths_patched:
  assumes "crawl c" and "\<forall>e\<in>set (queue st). 0 \<le> depth e"
    and "runBatch c web sched st = Inr st'"
  shows "(\<exists>new. queue (harvest c hs s) = queue s @ new \<and> (\<forall>e\<in>set new. depth e = - 1))
       \<and> (\<exists>new. queue st' = drop (nat (concurrency c)) (queue st) @ new
              \<and> (\<forall>e\<in>set new. 1 \<le> depth e
                    \<and> (\<exists>m\<in>set (take (nat (concurrency c)) (queue st)).
                          depth m \<le> maxDepth c \<and> depth e = depth m + 1)))
       \<and> (\<forall>e\<in>set (queue st'). 0 \<le> depth e)"
proof -
  let ?batch = "take (nat (concurrency c)) (queue st)"
  let ?rest = "drop (nat (concurrency c)) (queue st)"
  from harvest_queue [of c hs s] obtain h where
    "queue (harvest c hs s) = queue s @ h" "\<forall>e\<in>set h. depth e = - 1" by auto
  then have 1: "\<exists>new. queue (harvest c hs s) = queue s @ new \<and> (\<forall>e\<in>set new. depth e = - 1)"
    by (intro exI [of _ h]) simp
  from runBatch_depths [OF assms] obtain new where new: "queue st' = ?rest @ new"
    "\<forall>e\<in>set new. \<exists>m\<in>set ?batch. depth m \<le> maxDepth c \<and> depth e = depth m + 1"
    by (elim exE conjE)
  have ge: "1 \<le> depth e" if "e \<in> set new" for e
  proof -
    from that new(2) obtain m where "m \<in> set ?batch" "depth e = depth m + 1" by blast
    moreover from this assms(2) have "0 \<le> depth m" by (auto dest: in_set_takeD)
    ultimately show ?thesis by simp
  qed
  have 2: "\<exists>new. queue st' = ?rest @ new
              \<and> (\<forall>e\<in>set new. 1 \<le> depth e
                    \<and> (\<exists>m\<in>set ?batch. depth m \<le> maxDepth c \<and> depth e = depth m + 1))"
    using new ge by (intro exI [of _ new]) simp
  have 3: "0 \<le> depth e" if "e \<in> set (queue st')" for e
  proof -
    from that new(1) consider "e \<in> set ?rest" | "e \<in> set new" by auto
    then show ?thesis
    proof cases
      case 1
      with assms(2) show ?thesis by (auto dest: in_set_dropD)
    next
      case 2
      with ge [of e] show ?thesis by simp
    qed
  qed
  from 1 2 3 show ?thesis by (intro conjI ballI)
qed

text \<open>The first batch of the same crawl.\<close>

lemma harvested_depths_patched_example:
  "crawl (mkEnv mixedCrawl) \<and> map depth (queue (initialState mixedCrawl)) = [0, 0, 0]
   \<and> (\<exists>st'. runBatch (mkEnv mixedCrawl) mixedSite [] (initialState mixedCrawl) = Inr st'
         \<and> queue st' = [\<lparr>route = ''/s3'', depth = 0\<rparr>, \<lparr>route = ''/a'', depth = 1\<rparr>]
         \<and> (\<forall>e\<in>set (queue st'). 0 \<le> depth e))"
proof -
  let ?c = "mkEnv mixedCrawl" and ?s = "initialState mixedCrawl"
  have c: "crawl ?c" by code_simp
  have q: "\<forall>e\<in>set (queue ?s). 0 \<le> depth e" by code_simp
  have q0: "map depth (queue ?s) = [0, 0, 0]" by code_simp
  have "case runBatch ?c mixedSite [] ?s of Inl e \<Rightarrow> False
        | Inr st' \<Rightarrow> queue st' = [\<lparr>route = ''/s3'', depth = 0\<rparr>, \<lparr>route = ''/a'', depth = 1\<rparr>]"
    by code_simp
  then obtain st' where r: "runBatch ?c mixedSite [] ?s = Inr st'"
    and q': "queue st' = [\<lparr>route = ''/s3'', depth = 0\<rparr>, \<lparr>route = ''/a'', depth = 1\<rparr>]"
    by (cases "runBatch ?c mixedSite [] ?s") simp_all
  from harvested_depths_patched [OF c q r, THEN conjunct2, THEN conjunct2]
  have "\<forall>e\<in>set (queue st'). 0 \<le> depth e" .
  with c q0 r q' show ?thesis by (intro conjI exI [of _ st'])
qed

lemma pagesWritten_Some:
  assumes "pagesWritten out = Some ps"
  obtains st doc where "out = Some (Wrote st doc)" and "captured st = ps"
  using assms by (auto simp: pagesWritten_def split: option.splits outcome.splits)

lemma llmsTxt_concurrency [simp]:
  "llmsTxt cmp (opts\<lparr>crawl_concurrency := k\<rparr>) pages = llmsTxt cmp opts pages"
  by (simp add: llmsTxt_def)

lemma routesWritten_cmp:
  "routesWritten (closeBundle cmp opts web scheds)
     = routesWritten (closeBundle codeCompare opts web scheds)"
  by (simp add: closeBundle_def routesWritten_def split: option.splits sum.splits)

lemma pagesWritten_cmp:
  "pagesWritten (closeBundle cmp opts web scheds)
     = pagesWritten (closeBundle codeCompare opts web scheds)"
  by (simp add: closeBundle_def pagesWritten_def split: option.splits sum.splits)

lemma indexWritten_pages:
  "indexWritten (closeBundle cmp opts web scheds)
     = map_option (llmsTxt cmp opts) (pagesWritten (closeBundle cmp opts web scheds))"
  by (simp add: closeBundle_def pagesWritten_def indexWritten_def split: option.splits sum.splits)

text \<open>
  C8. With sort enabled, two runs that differ only in the concurrency do not always
  write the same index. With a cap of one page and two seeds, one capture at a time
  indexes one page and four at a time index two, whatever the comparison of route
  keys.
\<close>

theorem concurrency_changes_index:
  "output_sort (cappedCrawl 1)
   \<and> cappedCrawl 4 = (cappedCrawl 1)\<lparr>crawl_concurrency := 4\<rparr>
   \<and> routesWritten (closeBundle cmp (cappedCrawl 1) homeAndA [[], []]) = Some [''/'']
   \<and> routesWritten (closeBundle cmp (cappedCrawl 4) homeAndA [[], []]) = Some [''/'', ''/a'']
   \<and> indexWritten (closeBundle cmp (cappedCrawl 1) homeAndA [[], []])
       \<noteq> indexWritten (closeBundle cmp (cappedCrawl 4) homeAndA [[], []])"
proof (intro conjI)
  show "output_sort (cappedCrawl 1)" by (simp add: cappedCrawl_def plainOptions_def)
  show "cappedCrawl 4 = (cappedCrawl 1)\<lparr>crawl_concurrency := 4\<rparr>" by (simp add: cappedCrawl_def)
  have "routesWritten (closeBundle codeCompare (cappedCrawl 1) homeAndA [[], []]) = Some [''/'']"
    by code_simp
  then show "routesWritten (closeBundle cmp (cappedCrawl 1) homeAndA [[], []]) = Some [''/'']"
    by (simp only: routesWritten_cmp [of cmp])
  have "routesWritten (closeBundle codeCompare (cappedCrawl 4) homeAndA [[], []])
          = Some [''/'', ''/a'']"
    by code_simp
  then show "routesWritten (closeBundle cmp (cappedCrawl 4) homeAndA [[], []]) = Some [''/'', ''/a'']"
    by (simp only: routesWritten_cmp [of cmp])
  let ?home = "\<lparr>cp_route = ''/'', cp_title = ''/'', cp_section = ''Pages'', cp_optional = False,
                cp_notes = None, cp_mdRelPath = ''index.html.md''\<rparr>"
  have 1: "pagesWritten (closeBundle codeCompare (cappedCrawl 1) homeAndA [[], []]) = Some [?home]"
    by code_simp
  have 4: "pagesWritten (closeBundle codeCompare (cappedCrawl 4) homeAndA [[], []])
             = Some [?home, pageA]"
    by code_simp
  have "llmsTxt cmp (cappedCrawl 1) [?home] \<noteq> llmsTxt cmp (cappedCrawl 4) [?home, pageA]"
    by (simp add: llmsTxt_def sortItems_def groupItems_def renderSection_def renderItem_def
        cappedCrawl_def plainOptions_def orElse_def pageA_def makeLlmsLink_def
        replaceBackslashes_def)
  then show "indexWritten (closeBundle cmp (cappedCrawl 1) homeAndA [[], []])
       \<noteq> indexWritten (closeBundle cmp (cappedCrawl 4) homeAndA [[], []])"
    by (simp add: indexWritten_pages pagesWritten_cmp [of cmp] 1 4)
qed

text \<open>
  What the sort gives: the index does not depend on the order in which the pages were
  captured. Two runs whose options differ only in the concurrency, under any orders of
  completion, write the same index when they captured the same pages and the
  comparison is a strict total order on their route keys.
\<close>

lemma sorted_index_independent_of_capture_order:
  assumes "output_sort opts"
    and "closeBundle cmp opts web scheds = Some (Wrote st doc)"
    and "closeBundle cmp (opts\<lparr>crawl_concurrency := k\<rparr>) web scheds' = Some (Wrote st' doc')"
    and "mset (captured st') = mset (captured st)"
    and "ordersRoutes cmp (map cp_route (captured st))"
  shows "doc' = doc"
proof -
  from closeBundle_Wrote [OF assms(2)]
  have t: "traverse (mkEnv opts) web scheds (initialState opts) = Some (Inr st)"
    and doc: "doc = llmsTxt cmp opts (captured st)" by simp_all
  from closeBundle_Wrote(2) [OF assms(3)] have doc': "doc' = llmsTxt cmp opts (captured st')"
    by simp
  from traverse_tracked [OF t tracked_initial] have "distinct (map cp_route (captured st))"
    by (rule tracked_distinct)
  with assms(5) have "sortItems cmp (captured st) = sortItems cmp (captured st')"
    using assms(4) by (intro sortItems_permuted) simp_all
  with assms(1) doc doc' show ?thesis by (simp add: llmsTxt_def)
qed

text \<open>Two seeds captured in opposite orders give the same index.\<close>

lemma sorted_index_independent_of_capture_order_example:
  "\<exists>st doc st' doc'.
      closeBundle codeCompare twoSeeds (staticSite [(''/a'', []), (''/b'', [])]) [[], []]
        = Some (Wrote st doc)
    \<and> closeBundle codeCompare (twoSeeds\<lparr>crawl_concurrency := 4\<rparr>)
          (staticSite [(''/a'', []), (''/b'', [])]) [[1, 0]] = Some (Wrote st' doc')
    \<and> captured st = [pageB, pageA] \<and> captured st' = [pageA, pageB] \<and> doc' = doc"
proof -
  let ?web = "staticSite [(''/a'', []), (''/b'', [])]"
  have "pagesWritten (closeBundle codeCompare twoSeeds ?web [[], []]) = Some [pageB, pageA]"
    by code_simp
  then obtain st doc where 1: "closeBundle codeCompare twoSeeds ?web [[], []] = Some (Wrote st doc)"
    and c1: "captured st = [pageB, pageA]" by (rule pagesWritten_Some)
  have "pagesWritten (closeBundle codeCompare (twoSeeds\<lparr>crawl_concurrency := 4\<rparr>) ?web [[1, 0]])
          = Some [pageA, pageB]"
    by code_simp
  then obtain st' doc' where
    2: "closeBundle codeCompare (twoSeeds\<lparr>crawl_concurrency := 4\<rparr>) ?web [[1, 0]] = Some (Wrote st' doc')"
    and c2: "captured st' = [pageA, pageB]" by (rule pagesWritten_Some)
  have s: "output_sort twoSeeds" by (simp add: twoSeeds_def plainOptions_def)
  have m: "mset (captured st') = mset (captured st)" by (simp add: c1 c2)
  have o: "ordersRoutes codeCompare (map cp_route (captured st))"
    unfolding c1 by code_simp
  from sorted_index_independent_of_capture_order [OF s 1 2 m o] have "doc' = doc" .
  with 1 2 c1 c2 show ?thesis by (intro exI [of _ st] exI [of _ doc] exI [of _ st'] exI [of _ doc'] conjI)
qed

lemma resolveRouteDef_root:
  "normalizeRoute (rd_path r) True = None \<Longrightarrow> rd_path (resolveRouteDef r) = ''/''"
  by (simp add: resolveRouteDef_def orElse_def)

lemma single_root_run:
  assumes "queue st = [\<lparr>route = ''/'', depth = 0\<rparr>]" and "visited st = []" and "captured st = []"
    and "\<not> crawl c" and "maxPages c = 1" and "concurrency c = 3"
    and "\<not> fst (isExcluded (rules st) ''/'')" and "web ''/'' = Rendered (Loaded t hs) True"
  shows "\<exists>st'. traverse c web [[]] st = Some (Inr st') \<and> map cp_route (captured st') = [''/'']"
proof -
  from assms(7) obtain rs where ex: "isExcluded (rules st) ''/'' = (False, rs)"
    by (cases "isExcluded (rules st) ''/''") auto
  let ?st1 = "st\<lparr>queue := [], rules := rs, visited := [''/'']\<rparr>"
  let ?st2 = "?st1\<lparr>captured := [capturedPage c ''/'' t]\<rparr>"
  have d: "dispatchAll c [\<lparr>route = ''/'', depth = 0\<rparr>] (st\<lparr>queue := []\<rparr>)
             = ([InFlight ''/'' 0], ?st1)"
    using assms(2-5) ex by (simp add: dispatchMember_def captureOneStart_def)
  have f: "captureOneFinish c web ''/'' ?st1 = Inr ?st2"
    using assms(3,4,8) by (simp add: captureOneFinish_def)
  have "runBatch c web [] st = Inr ?st2"
    using assms(1,4,6) d f
    by (simp add: runBatch_def takeBatch_def fixDepth_def stepTask_def patchQueue_def)
  then have "traverse c web [[]] st = Some (Inr ?st2)"
    using assms(1,3,5) by simp
  then show ?thesis by (intro exI [of _ ?st2]) simp
qed

text \<open>
  C10. In explicit mode a declared route whose path does not normalize is given the
  path \<open>/\<close>: it seeds the queue with the root route, and when it is the only declared
  route and the root page loads and is not excluded, the run captures the root.
\<close>

theorem unnormalizable_route_becomes_root:
  assumes "normalizeRoute (rd_path r) True = None" and "\<not> crawl_enabled opts"
    and "r \<in> set (routes opts)"
  shows "rd_path (resolveRouteDef r) = ''/''
    \<and> \<lparr>route = ''/'', depth = 0\<rparr> \<in> set (queue (initialState opts))
    \<and> (enabled opts \<and> routes opts = [r] \<and> \<not> fst (isExcluded (exclude opts) ''/'')
         \<and> web ''/'' = Rendered (Loaded t hs) True
       \<longrightarrow> (\<exists>st doc. closeBundle cmp opts web [[]] = Some (Wrote st doc)
              \<and> map cp_route (captured st) = [''/'']))"
proof (intro conjI impI)
  from assms(1) show root: "rd_path (resolveRouteDef r) = ''/''" by (rule resolveRouteDef_root)
  from assms(3) have ne: "routes opts \<noteq> []" by auto
  have "\<lparr>route = rd_path (resolveRouteDef r), depth = 0\<rparr> \<in> set (queue (initialState opts))"
    using assms(2,3) ne by (auto simp: initialState_def seedQueue_def resolveRouteDefs_def)
  with root show "\<lparr>route = ''/'', depth = 0\<rparr> \<in> set (queue (initialState opts))" by simp
next
  assume a: "enabled opts \<and> routes opts = [r] \<and> \<not> fst (isExcluded (exclude opts) ''/'')
         \<and> web ''/'' = Rendered (Loaded t hs) True"
  from assms(1) have root: "rd_path (resolveRouteDef r) = ''/''" by (rule resolveRouteDef_root)
  let ?st = "initialState opts" and ?c = "mkEnv opts"
  from a assms(2) root have q: "queue ?st = [\<lparr>route = ''/'', depth = 0\<rparr>]"
    by (simp add: initialState_def seedQueue_def resolveRouteDefs_def)
  have v: "visited ?st = []" "captured ?st = []" "rules ?st = exclude opts"
    by (simp_all add: initialState_def)
  from a assms(2) root have c: "\<not> crawl ?c" "maxPages ?c = 1" "concurrency ?c = 3"
    by (simp_all add: mkEnv_def Let_def seedQueue_def resolveRouteDefs_def)
  from a v have e: "\<not> fst (isExcluded (rules ?st) ''/'')" by simp
  from a have w: "web ''/'' = Rendered (Loaded t hs) True" by simp
  from single_root_run [of ?st ?c web t hs, OF q v(1,2) c e w] obtain st' where
    "traverse ?c web [[]] ?st = Some (Inr st')" "map cp_route (captured st') = [''/'']"
    by (elim exE conjE)
  with a show "\<exists>st doc. closeBundle cmp opts web [[]] = Some (Wrote st doc)
              \<and> map cp_route (captured st) = [''/'']"
    by (simp add: closeBundle_def)
qed

text \<open>A route declared with an empty path.\<close>

theorem unnormalizable_route_becomes_root_witness:
  "normalizeRoute (rd_path (routeDef '''')) True = None \<and> \<not> crawl_enabled emptyPath
   \<and> routes emptyPath = [routeDef ''''] \<and> enabled emptyPath
   \<and> \<not> fst (isExcluded (exclude emptyPath) ''/'')
   \<and> staticSite [(''/'', [])] ''/'' = Rendered (Loaded [] []) True
   \<and> rd_path (resolveRouteDef (routeDef '''')) = ''/''
   \<and> queue (initialState emptyPath) = [\<lparr>route = ''/'', depth = 0\<rparr>]
   \<and> (\<exists>st doc. closeBundle codeCompare emptyPath (staticSite [(''/'', [])]) [[]]
                   = Some (Wrote st doc)
          \<and> map cp_route (captured st) = [''/''])"
proof -
  have n: "normalizeRoute (rd_path (routeDef '''')) True = None"
    by (simp add: routeDef_def normalizeRoute_def)
  have c: "\<not> crawl_enabled emptyPath" and e: "enabled emptyPath"
    and r: "routes emptyPath = [routeDef '''']"
    by (simp_all add: emptyPath_def plainOptions_def)
  then have m: "routeDef '''' \<in> set (routes emptyPath)" by simp
  have x: "\<not> fst (isExcluded (exclude emptyPath) ''/'')" by code_simp
  have w: "staticSite [(''/'', [])] ''/'' = Rendered (Loaded [] []) True"
    by (simp add: staticSite_def)
  have q: "queue (initialState emptyPath) = [\<lparr>route = ''/'', depth = 0\<rparr>]" by code_simp
  from unnormalizable_route_becomes_root [OF n c m, of "staticSite [(''/'', [])]" "[]" "[]" codeCompare]
    n c e r x w q
  show ?thesis by simp
qed

text \<open>Paths that do not normalize.\<close>

lemma unnormalizable_examples:
  "map (\<lambda>p. normalizeRoute p True)
     ['''', ''#'', ''?q=1'', ''#top'', ''mailto:a@b.c'', ''tel:123'', ''javascript:void(0)'',
      ''http://example.org/'', ''https://example.org/x'']
   = [None, None, None, None, None, None, None, None, None]"
  by code_simp

end
